theory Spec2Isabelle
  imports Main "HOL-Library.Log_Nat"
begin

section \<open>Python values\<close>

text \<open>
  A Python \<open>str\<close> is a sequence of Unicode code points, so a string is a list of
  code points. \<open>ascii\<close> reads an ASCII literal.
\<close>

type_synonym pystr = "nat list"

definition ascii :: "string \<Rightarrow> pystr" where
  "ascii s = map of_char s"

text \<open>
  A Python \<open>float\<close> is a binary64 value: a finite one is the rational number it
  denotes, the others are \<open>nan\<close>, \<open>inf\<close> and \<open>-inf\<close>.
\<close>

datatype pyfloat = Finite rat | NaN | PosInf | NegInf

text \<open>
  The values \<open>response.json()\<close> returns: \<open>None\<close>, \<open>bool\<close>, \<open>int\<close>, \<open>float\<close>,
  \<open>str\<close>, \<open>list\<close> and \<open>dict\<close>. A dict is its items in insertion order, the keys
  distinct; a key is looked up with \<open>map_of\<close>.
\<close>

datatype json =
    JNull
  | JBool bool
  | JInt int
  | JFloat pyfloat
  | JStr pystr
  | JArr "json list"
  | JObj "(pystr \<times> json) list"

text \<open>
  The exceptions of a run. \<open>Unmodelled\<close> marks the conversions of Python that are
  left out (\<open>int\<close> of a \<open>str\<close>, which parses it, and \<open>str\<close> of a value that is not a
  \<open>str\<close>): no theorem below is about an input that reaches one.
\<close>

datatype error =
    TypeError
  | ValueError
  | OverflowError
  | AttributeError
  | KeyError
  | FileNotFoundError
  | OSError
  | ConnectionError
  | JSONDecodeError
  | FFmpegFailed pystr
  | FireworksAPIError int pystr
  | Unmodelled

subsection \<open>\<open>int(x)\<close>\<close>

definition trunc :: "rat \<Rightarrow> int" where
  "trunc x = (if 0 \<le> x then \<lfloor>x\<rfloor> else \<lceil>x\<rceil>)"

fun py_int :: "json \<Rightarrow> error + int" where
  "py_int (JInt i) = Inr i"
| "py_int (JBool b) = Inr (if b then 1 else 0)"
| "py_int (JFloat (Finite x)) = Inr (trunc x)"
| "py_int (JFloat NaN) = Inl ValueError"
| "py_int (JFloat PosInf) = Inl OverflowError"
| "py_int (JFloat NegInf) = Inl OverflowError"
| "py_int (JStr s) = Inl Unmodelled"
| "py_int JNull = Inl TypeError"
| "py_int (JArr xs) = Inl TypeError"
| "py_int (JObj kvs) = Inl TypeError"

subsection \<open>Formatting an \<open>int\<close>\<close>

fun digits :: "nat \<Rightarrow> pystr" where
  "digits n = (if n < 10 then [48 + n] else digits (n div 10) @ [48 + n mod 10])"

declare digits.simps [simp del]

text \<open>\<open>str(i)\<close>, which is what \<open>f"{i}"\<close> inserts.\<close>

definition str_int :: "int \<Rightarrow> pystr" where
  "str_int i = (if i < 0 then 45 # digits (nat (- i)) else digits (nat i))"

text \<open>
  \<open>f"{i:02d}"\<close>: the sign first, then zeros up to the width, then the digits; the
  sign counts in the width.
\<close>

definition zfill :: "nat \<Rightarrow> pystr \<Rightarrow> pystr" where
  "zfill w ds = replicate (w - length ds) 48 @ ds"

definition format_02d :: "int \<Rightarrow> pystr" where
  "format_02d i =
     (if i < 0 then 45 # zfill 1 (digits (nat (- i))) else zfill 2 (digits (nat i)))"

section \<open>\<open>format_timestamp\<close>\<close>

definition format_timestamp :: "json \<Rightarrow> error + pystr" where
  "format_timestamp seconds =
     (case py_int seconds of
        Inl e \<Rightarrow> Inl e
      | Inr total_seconds \<Rightarrow>
          let hours = total_seconds div 3600;
              remainder = total_seconds mod 3600;
              minutes = remainder div 60;
              secs = remainder mod 60
          in if hours > 0
             then Inr (str_int hours @ ascii ''h'' @ format_02d minutes @ ascii ''m''
                       @ format_02d secs @ ascii ''s'')
             else Inr (str_int minutes @ ascii ''m'' @ format_02d secs @ ascii ''s''))"

text \<open>
  The timestamp as the specification words it, on the whole seconds \<open>t\<close>:
  \<open>{minutes}m{seconds:02}s\<close> under one hour, \<open>{hours}h{minutes:02}m{seconds:02}s\<close>
  otherwise, a two-digit field being its tens digit and its units digit.
\<close>

definition two_digits :: "int \<Rightarrow> pystr" where
  "two_digits n = [48 + nat (n div 10), 48 + nat (n mod 10)]"

definition spec_timestamp :: "int \<Rightarrow> pystr" where
  "spec_timestamp t =
     (if t < 3600
      then digits (nat (t div 60)) @ ascii ''m'' @ two_digits (t mod 60) @ ascii ''s''
      else digits (nat (t div 3600)) @ ascii ''h'' @ two_digits (t div 60 mod 60) @ ascii ''m''
           @ two_digits (t mod 60) @ ascii ''s'')"

text \<open>
  The inputs the formatter is specified for: non-negative seconds, an \<open>int\<close> or a finite
  \<open>float\<close>; and their whole seconds, with nothing rounded up.
\<close>

definition nonneg_seconds :: "json \<Rightarrow> bool" where
  "nonneg_seconds x =
     (case x of JInt i \<Rightarrow> 0 \<le> i | JFloat (Finite r) \<Rightarrow> 0 \<le> r | _ \<Rightarrow> False)"

definition whole_seconds :: "json \<Rightarrow> int" where
  "whole_seconds x = (case x of JInt i \<Rightarrow> i | JFloat (Finite r) \<Rightarrow> \<lfloor>r\<rfloor> | _ \<Rightarrow> 0)"

text \<open>The number a string of decimal digits denotes.\<close>

definition decimal_value :: "pystr \<Rightarrow> nat" where
  "decimal_value ds = foldl (\<lambda>acc d. 10 * acc + (d - 48)) 0 ds"

section \<open>Python operations on the response\<close>

text \<open>Sequencing of steps that may raise: the first exception ends the run of steps.\<close>

definition bind_err :: "error + 'a \<Rightarrow> ('a \<Rightarrow> error + 'b) \<Rightarrow> error + 'b" where
  "bind_err m f = (case m of Inl e \<Rightarrow> Inl e | Inr x \<Rightarrow> f x)"

text \<open>\<open>d.get(key, default)\<close>: only a dict has the method.\<close>

fun dict_get :: "json \<Rightarrow> pystr \<Rightarrow> json \<Rightarrow> error + json" where
  "dict_get (JObj kvs) k d = Inr (case map_of kvs k of None \<Rightarrow> d | Some v \<Rightarrow> v)"
| "dict_get _ k d = Inl AttributeError"

text \<open>\<open>d[key]\<close> with a \<open>str\<close> key.\<close>

fun subscript :: "json \<Rightarrow> pystr \<Rightarrow> error + json" where
  "subscript (JObj kvs) k = (case map_of kvs k of None \<Rightarrow> Inl KeyError | Some v \<Rightarrow> Inr v)"
| "subscript _ k = Inl TypeError"

text \<open>
  What a \<open>for\<close> loop or a comprehension iterates over: the items of a list, the
  characters of a \<open>str\<close>, the keys of a dict; any other value is not iterable.
\<close>

fun py_iter :: "json \<Rightarrow> error + json list" where
  "py_iter (JArr xs) = Inr xs"
| "py_iter (JStr s) = Inr (map (\<lambda>c. JStr [c]) s)"
| "py_iter (JObj kvs) = Inr (map (\<lambda>kv. JStr (fst kv)) kvs)"
| "py_iter _ = Inl TypeError"

fun py_len :: "json \<Rightarrow> error + int" where
  "py_len (JArr xs) = Inr (int (length xs))"
| "py_len (JStr s) = Inr (int (length s))"
| "py_len (JObj kvs) = Inr (int (length kvs))"
| "py_len _ = Inl TypeError"

text \<open>
  \<open>str(x)\<close>, as an f-string inserts a value; \<open>repr\<close> of a float and the text of a
  list or a dict are left out.
\<close>

fun py_str :: "json \<Rightarrow> error + pystr" where
  "py_str (JStr s) = Inr s"
| "py_str JNull = Inr (ascii ''None'')"
| "py_str (JBool b) = Inr (if b then ascii ''True'' else ascii ''False'')"
| "py_str (JInt i) = Inr (str_int i)"
| "py_str _ = Inl Unmodelled"

text \<open>The code points \<open>str.strip()\<close> removes: those for which \<open>str.isspace\<close> holds.\<close>

definition is_space :: "nat \<Rightarrow> bool" where
  "is_space c \<longleftrightarrow>
     (9 \<le> c \<and> c \<le> 13) \<or> (28 \<le> c \<and> c \<le> 32) \<or> c = 133 \<or> c = 160 \<or> c = 5760
     \<or> (8192 \<le> c \<and> c \<le> 8202) \<or> c = 8232 \<or> c = 8233 \<or> c = 8239 \<or> c = 8287
     \<or> c = 12288"

definition strip :: "pystr \<Rightarrow> pystr" where
  "strip s = rev (dropWhile is_space (rev (dropWhile is_space s)))"

fun py_strip :: "json \<Rightarrow> error + json" where
  "py_strip (JStr s) = Inr (JStr (strip s))"
| "py_strip _ = Inl AttributeError"

section \<open>\<open>transcribe\<close>: the request timeout\<close>

text \<open>
  Python computes \<open>st_size / (1024 * 1024)\<close>, \<open>/ 10\<close> and \<open>* 60\<close> in binary64, each
  result rounded to the nearest double, ties to the even mantissa. \<open>fl\<close> is that
  rounding on the exact value, for a result in the normal range of binary64 (here every
  intermediate value is 0 or lies between \<open>2\<^sup>-\<^sup>2\<^sup>4\<close> and \<open>2\<^sup>5\<^sup>0\<close>, a file size being less than
  \<open>2\<^sup>6\<^sup>3\<close>).
\<close>

definition ilog2 :: "rat \<Rightarrow> int" where
  "ilog2 x =
     (let d = bitlen (fst (quotient_of x)) - bitlen (snd (quotient_of x))
      in if 2 powi d \<le> x then d else d - 1)"

definition round_half_even :: "rat \<Rightarrow> int" where
  "round_half_even y =
     (let n = \<lfloor>y\<rfloor>; r = y - of_int n
      in if r < 1 / 2 then n else if 1 / 2 < r then n + 1 else if even n then n else n + 1)"

definition fl :: "rat \<Rightarrow> rat" where
  "fl x =
     (if x = 0 then 0
      else let q = 2 powi (ilog2 \<bar>x\<bar> - 52) in of_int (round_half_even (x / q)) * q)"

definition request_timeout :: "nat \<Rightarrow> int" where
  "request_timeout st_size =
     (let file_size_mb = fl (of_nat st_size / (1024 * 1024))
      in max 120 (trunc (fl (fl (file_size_mb / 10) * 60)) + 60))"

text \<open>The timeout as the specification words it, in exact arithmetic.\<close>

definition spec_timeout :: "nat \<Rightarrow> rat" where
  "spec_timeout st_size = max 120 (of_nat st_size / (1024 * 1024) / 10 * 60 + 60)"

section \<open>\<open>transcribe\<close>: the response, normalised\<close>

definition normalize_word :: "json \<Rightarrow> error + json" where
  "normalize_word w =
     bind_err (dict_get w (ascii ''word'') (JStr [])) (\<lambda>word.
     bind_err (dict_get w (ascii ''start'') (JInt 0)) (\<lambda>start.
     bind_err (dict_get w (ascii ''end'') (JInt 0)) (\<lambda>end'.
     Inr (JObj [(ascii ''word'', word), (ascii ''start'', start), (ascii ''end'', end')]))))"

text \<open>The list comprehension over \<open>segment["words"]\<close>.\<close>

fun normalize_words :: "json list \<Rightarrow> error + json list" where
  "normalize_words [] = Inr []"
| "normalize_words (w # ws) =
     (case normalize_word w of
        Inl e \<Rightarrow> Inl e
      | Inr d \<Rightarrow> (case normalize_words ws of Inl e \<Rightarrow> Inl e | Inr ds \<Rightarrow> Inr (d # ds)))"

text \<open>The body of the loop over the segments, up to the \<open>append\<close>.\<close>

definition normalize_segment :: "json \<Rightarrow> error + json" where
  "normalize_segment segment =
     bind_err (dict_get segment (ascii ''start'') (JInt 0)) (\<lambda>start.
     bind_err (dict_get segment (ascii ''end'') (JInt 0)) (\<lambda>end'.
     bind_err (dict_get segment (ascii ''text'') (JStr [])) (\<lambda>t.
     bind_err (py_strip t) (\<lambda>text.
       let seg_data = [(ascii ''start'', start), (ascii ''end'', end'), (ascii ''text'', text)]
       in case subscript segment (ascii ''words'') of
            Inl e \<Rightarrow> Inr (JObj seg_data)
          | Inr ws \<Rightarrow>
              bind_err (py_iter ws) (\<lambda>items.
              bind_err (normalize_words items) (\<lambda>words.
              Inr (JObj (seg_data @ [(ascii ''words'', JArr words)]))))))))"

text \<open>The loop: \<open>acc\<close> is \<open>transcript["segments"]\<close>, appended to at each turn.\<close>

fun normalize_segments :: "json list \<Rightarrow> json list \<Rightarrow> error + json list" where
  "normalize_segments [] acc = Inr acc"
| "normalize_segments (segment # rest) acc =
     (case normalize_segment segment of
        Inl e \<Rightarrow> Inl e
      | Inr seg_data \<Rightarrow> normalize_segments rest (acc @ [seg_data]))"

text \<open>
  From \<open>result = response.json()\<close> to the \<open>return\<close>; the last step is the line that
  prints the duration, which calls \<open>format_timestamp\<close>.
\<close>

definition normalize :: "pystr \<Rightarrow> json \<Rightarrow> error + json" where
  "normalize audio_name result =
     bind_err (dict_get result (ascii ''language'') (JStr (ascii ''en''))) (\<lambda>language.
     bind_err (dict_get result (ascii ''duration'') (JInt 0)) (\<lambda>duration.
     bind_err (dict_get result (ascii ''segments'') (JArr [])) (\<lambda>segs.
     bind_err (py_iter segs) (\<lambda>items.
     bind_err (normalize_segments items []) (\<lambda>segments.
     bind_err (format_timestamp duration) (\<lambda>shown.
     Inr (JObj [(ascii ''audio_file'', JStr audio_name), (ascii ''language'', language),
                (ascii ''duration'', duration), (ascii ''segments'', JArr segments)])))))))"

text \<open>
  The outcome of \<open>requests.post\<close>, which depends on the timeout it is given: an
  exception, or a response with its status code, its text and what \<open>response.json()\<close>
  makes of it.
\<close>

datatype http_outcome = RequestFailed error | Response int pystr "error + json"

text \<open>\<open>st\<close> is \<open>st_size\<close> of the audio file, \<open>None\<close> when there is no such file.\<close>

definition transcribe :: "pystr \<Rightarrow> nat option \<Rightarrow> (int \<Rightarrow> http_outcome) \<Rightarrow> error + json" where
  "transcribe audio_name st post =
     (case st of
        None \<Rightarrow> Inl FileNotFoundError
      | Some st_size \<Rightarrow>
          (case post (request_timeout st_size) of
             RequestFailed e \<Rightarrow> Inl e
           | Response status_code text body \<Rightarrow>
               if status_code \<noteq> 200 then Inl (FireworksAPIError status_code text)
               else bind_err body (normalize audio_name)))"

section \<open>The response schema and the transcript the specification describes\<close>

text \<open>
  The response of the remote service is a JSON object whose fields are all optional:
  \<open>language\<close>, \<open>duration\<close> (a number) and \<open>segments\<close> (a list of objects), a segment
  having \<open>start\<close>, \<open>end\<close>, \<open>text\<close> (a string) and \<open>words\<close> (a list of objects). Only
  the fields whose type the code relies on are constrained.
\<close>

definition is_number :: "json \<Rightarrow> bool" where
  "is_number x = (case x of JInt i \<Rightarrow> True | JFloat (Finite r) \<Rightarrow> True | _ \<Rightarrow> False)"

definition is_str :: "json \<Rightarrow> bool" where
  "is_str x = (case x of JStr s \<Rightarrow> True | _ \<Rightarrow> False)"

definition is_obj :: "json \<Rightarrow> bool" where
  "is_obj x = (case x of JObj kvs \<Rightarrow> True | _ \<Rightarrow> False)"

definition optional :: "(json \<Rightarrow> bool) \<Rightarrow> (pystr \<times> json) list \<Rightarrow> pystr \<Rightarrow> bool" where
  "optional P kvs k = (case map_of kvs k of None \<Rightarrow> True | Some v \<Rightarrow> P v)"

definition schema_words :: "json \<Rightarrow> bool" where
  "schema_words v = (case v of JArr ws \<Rightarrow> list_all is_obj ws | _ \<Rightarrow> False)"

definition schema_segment :: "json \<Rightarrow> bool" where
  "schema_segment s =
     (case s of
        JObj kvs \<Rightarrow> optional is_str kvs (ascii ''text'') \<and> optional schema_words kvs (ascii ''words'')
      | _ \<Rightarrow> False)"

definition schema_segments :: "json \<Rightarrow> bool" where
  "schema_segments v = (case v of JArr segs \<Rightarrow> list_all schema_segment segs | _ \<Rightarrow> False)"

definition schema_response :: "json \<Rightarrow> bool" where
  "schema_response r =
     (case r of
        JObj kvs \<Rightarrow>
          optional is_number kvs (ascii ''duration'')
          \<and> optional schema_segments kvs (ascii ''segments'')
      | _ \<Rightarrow> False)"

text \<open>A field of an object, or the default when the object has no such field.\<close>

definition field_or :: "json \<Rightarrow> pystr \<Rightarrow> json \<Rightarrow> json" where
  "field_or obj k d =
     (case obj of JObj kvs \<Rightarrow> (case map_of kvs k of None \<Rightarrow> d | Some v \<Rightarrow> v) | _ \<Rightarrow> d)"

definition has_field :: "json \<Rightarrow> pystr \<Rightarrow> bool" where
  "has_field obj k = (case obj of JObj kvs \<Rightarrow> k \<in> fst ` set kvs | _ \<Rightarrow> False)"

definition keys :: "json \<Rightarrow> pystr list" where
  "keys obj = (case obj of JObj kvs \<Rightarrow> map fst kvs | _ \<Rightarrow> [])"

definition elems :: "json \<Rightarrow> json list" where
  "elems v = (case v of JArr xs \<Rightarrow> xs | _ \<Rightarrow> [])"

definition str_of :: "json \<Rightarrow> pystr" where
  "str_of v = (case v of JStr s \<Rightarrow> s | _ \<Rightarrow> [])"

text \<open>
  The transcript of the specification: every field read with its default, the text
  trimmed, \<open>words\<close> present only where the segment has it.
\<close>

definition spec_word :: "json \<Rightarrow> json" where
  "spec_word w =
     JObj [(ascii ''word'', field_or w (ascii ''word'') (JStr [])),
           (ascii ''start'', field_or w (ascii ''start'') (JInt 0)),
           (ascii ''end'', field_or w (ascii ''end'') (JInt 0))]"

definition spec_segment :: "json \<Rightarrow> json" where
  "spec_segment s =
     JObj ([(ascii ''start'', field_or s (ascii ''start'') (JInt 0)),
            (ascii ''end'', field_or s (ascii ''end'') (JInt 0)),
            (ascii ''text'', JStr (strip (str_of (field_or s (ascii ''text'') (JStr [])))))]
           @ (if has_field s (ascii ''words'')
              then [(ascii ''words'', JArr (map spec_word (elems (field_or s (ascii ''words'') JNull))))]
              else []))"

definition spec_transcript :: "pystr \<Rightarrow> json \<Rightarrow> json" where
  "spec_transcript audio_name r =
     JObj [(ascii ''audio_file'', JStr audio_name),
           (ascii ''language'', field_or r (ascii ''language'') (JStr (ascii ''en''))),
           (ascii ''duration'', field_or r (ascii ''duration'') (JInt 0)),
           (ascii ''segments'',
              JArr (map spec_segment (elems (field_or r (ascii ''segments'') (JArr [])))))]"

text \<open>The values the loop over the segments of a response runs through.\<close>

definition response_segments :: "json \<Rightarrow> json list" where
  "response_segments r =
     (case bind_err (dict_get r (ascii ''segments'') (JArr [])) py_iter of
        Inl e \<Rightarrow> []
      | Inr xs \<Rightarrow> xs)"

text \<open>
  The response of the end-to-end scenario of the specification: thirty seconds, two
  segments, \<open>hello\<close> over \<open>[0, 15]\<close> and \<open>world\<close> over \<open>[15, 30]\<close>.
\<close>

definition scenario_response :: json where
  "scenario_response =
     JObj [(ascii ''language'', JStr (ascii ''en'')),
           (ascii ''duration'', JFloat (Finite 30)),
           (ascii ''segments'',
              JArr [JObj [(ascii ''start'', JFloat (Finite 0)), (ascii ''end'', JFloat (Finite 15)),
                          (ascii ''text'', JStr (ascii '' hello''))],
                    JObj [(ascii ''start'', JFloat (Finite 15)), (ascii ''end'', JFloat (Finite 30)),
                          (ascii ''text'', JStr (ascii '' world''))]])]"

definition scenario_transcript :: json where
  "scenario_transcript =
     JObj [(ascii ''audio_file'', JStr (ascii ''talk.wav'')),
           (ascii ''language'', JStr (ascii ''en'')),
           (ascii ''duration'', JFloat (Finite 30)),
           (ascii ''segments'',
              JArr [JObj [(ascii ''start'', JFloat (Finite 0)), (ascii ''end'', JFloat (Finite 15)),
                          (ascii ''text'', JStr (ascii ''hello''))],
                    JObj [(ascii ''start'', JFloat (Finite 15)), (ascii ''end'', JFloat (Finite 30)),
                          (ascii ''text'', JStr (ascii ''world''))]])]"

section \<open>\<open>print_transcript\<close>\<close>

text \<open>
  Standard output is the list of the texts printed, one per call of \<open>print\<close>, which
  ends each with a line break. The function returns what it printed and the exception
  that stopped it, if one did.
\<close>

definition rule60 :: pystr where
  "rule60 = replicate 60 61"

definition segment_line :: "json \<Rightarrow> error + pystr" where
  "segment_line segment =
     bind_err (subscript segment (ascii ''start'')) (\<lambda>s.
     bind_err (format_timestamp s) (\<lambda>start.
     bind_err (subscript segment (ascii ''end'')) (\<lambda>e.
     bind_err (format_timestamp e) (\<lambda>end'.
     bind_err (subscript segment (ascii ''text'')) (\<lambda>text.
     bind_err (py_str text) (\<lambda>shown.
     Inr (ascii ''['' @ start @ ascii '' -> '' @ end' @ ascii '']  '' @ shown)))))))"

fun print_segments :: "json list \<Rightarrow> pystr list \<Rightarrow> pystr list \<times> error option" where
  "print_segments [] out = (out, None)"
| "print_segments (segment # rest) out =
     (case segment_line segment of
        Inl e \<Rightarrow> (out, Some e)
      | Inr line \<Rightarrow> print_segments rest (out @ [line]))"

definition print_transcript :: "json \<Rightarrow> pystr list \<times> error option" where
  "print_transcript transcript =
     (case dict_get transcript (ascii ''duration'') (JInt 0) of
        Inl e \<Rightarrow> ([], Some e)
      | Inr duration \<Rightarrow>
     (case dict_get transcript (ascii ''language'') (JStr (ascii ''unknown'')) of
        Inl e \<Rightarrow> ([], Some e)
      | Inr lang \<Rightarrow>
     let out1 = [10 # rule60, ascii ''TRANSCRIPT''] in
     (case bind_err (format_timestamp duration) (\<lambda>d.
           bind_err (py_str lang) (\<lambda>l.
           Inr (ascii ''Duration: '' @ d @ ascii ''  |  Language: '' @ l))) of
        Inl e \<Rightarrow> (out1, Some e)
      | Inr line3 \<Rightarrow>
     let out2 = out1 @ [line3] in
     (case bind_err (subscript transcript (ascii ''segments'')) py_len of
        Inl e \<Rightarrow> (out2, Some e)
      | Inr n \<Rightarrow>
     let out3 = out2 @ [ascii ''Segments: '' @ str_int n, rule60 @ [10]] in
     (case bind_err (subscript transcript (ascii ''segments'')) py_iter of
        Inl e \<Rightarrow> (out3, Some e)
      | Inr segs \<Rightarrow>
     (case print_segments segs out3 of
        (out4, Some e) \<Rightarrow> (out4, Some e)
      | (out4, None) \<Rightarrow> (out4 @ [10 # rule60], None)))))))"

text \<open>
  A transcript as the data model has it: an object whose \<open>segments\<close> is a list of
  objects with a number for \<open>start\<close> and for \<open>end\<close> and a string for \<open>text\<close>; the
  \<open>duration\<close>, when present, is a number and the \<open>language\<close> a string.
\<close>

definition valid_segment :: "json \<Rightarrow> bool" where
  "valid_segment s \<longleftrightarrow>
     is_obj s \<and> has_field s (ascii ''start'') \<and> is_number (field_or s (ascii ''start'') JNull)
     \<and> has_field s (ascii ''end'') \<and> is_number (field_or s (ascii ''end'') JNull)
     \<and> has_field s (ascii ''text'') \<and> is_str (field_or s (ascii ''text'') JNull)"

definition valid_transcript :: "json \<Rightarrow> bool" where
  "valid_transcript t \<longleftrightarrow>
     is_obj t \<and> is_number (field_or t (ascii ''duration'') (JInt 0))
     \<and> is_str (field_or t (ascii ''language'') (JStr []))
     \<and> has_field t (ascii ''segments'')
     \<and> (case field_or t (ascii ''segments'') JNull of
           JArr segs \<Rightarrow> list_all valid_segment segs
         | _ \<Rightarrow> False)"

text \<open>The line of a segment as the specification words it: \<open>[start -> end]  text\<close>.\<close>

definition timestamp_of :: "json \<Rightarrow> pystr" where
  "timestamp_of x = (case format_timestamp x of Inl e \<Rightarrow> [] | Inr s \<Rightarrow> s)"

definition spec_line :: "json \<Rightarrow> pystr" where
  "spec_line s =
     ascii ''['' @ timestamp_of (field_or s (ascii ''start'') JNull) @ ascii '' -> ''
     @ timestamp_of (field_or s (ascii ''end'') JNull) @ ascii '']  ''
     @ str_of (field_or s (ascii ''text'') JNull)"

section \<open>\<open>main\<close>: the file system and the run\<close>

text \<open>
  A path is the list of its components. The file system is the files that exist, each
  with what it holds, and the directories that exist. What a file holds is a number of
  bytes, or the text \<open>json.dump\<close> wrote for a document.
\<close>

type_synonym path = "pystr list"

datatype content = Bytes nat | Json json

record filesystem =
  files :: "(path \<times> content) list"
  dirs :: "path list"

definition parent :: "path \<Rightarrow> path" where
  "parent p = butlast p"

definition exists :: "path \<Rightarrow> filesystem \<Rightarrow> bool" where
  "exists p fs \<longleftrightarrow> p \<in> set (map fst (files fs)) \<or> p \<in> set (dirs fs)"

definition write_file :: "path \<Rightarrow> content \<Rightarrow> filesystem \<Rightarrow> filesystem" where
  "write_file p c fs = fs\<lparr>files := (p, c) # filter (\<lambda>f. fst f \<noteq> p) (files fs)\<rparr>"

text \<open>\<open>open(p, "w")\<close> followed by the write.\<close>

definition open_w :: "path \<Rightarrow> content \<Rightarrow> filesystem \<Rightarrow> (error + unit) \<times> filesystem" where
  "open_w p c fs =
     (if p \<in> set (dirs fs) then (Inl OSError, fs)
      else if parent p \<notin> set (dirs fs) then (Inl FileNotFoundError, fs)
      else (Inr (), write_file p c fs))"

definition unlink :: "path \<Rightarrow> filesystem \<Rightarrow> (error + unit) \<times> filesystem" where
  "unlink p fs =
     (if p \<in> set (map fst (files fs))
      then (Inr (), fs\<lparr>files := filter (\<lambda>f. fst f \<noteq> p) (files fs)\<rparr>)
      else if p \<in> set (dirs fs) then (Inl OSError, fs)
      else (Inl FileNotFoundError, fs))"

text \<open>\<open>rmdir\<close> removes an empty directory only.\<close>

definition rmdir :: "path \<Rightarrow> filesystem \<Rightarrow> (error + unit) \<times> filesystem" where
  "rmdir p fs =
     (if p \<notin> set (dirs fs) then (Inl FileNotFoundError, fs)
      else if \<exists>q \<in> set (map fst (files fs) @ dirs fs). q \<noteq> p \<and> parent q = p
      then (Inl OSError, fs)
      else (Inr (), fs\<lparr>dirs := filter (\<lambda>d. d \<noteq> p) (dirs fs)\<rparr>))"

text \<open>
  What a run meets outside the program: the command line (the paths already resolved,
  \<open>output_arg\<close> being \<open>None\<close> when \<open>--output\<close> is absent or empty), the environment, whether
  \<open>ffmpeg -version\<close> runs, what the transcoding does (its return code, its diagnostic
  output and the size of the file it wrote at the destination, if it wrote one), the fresh
  directory \<open>tempfile.mkdtemp\<close> creates, and the remote service.
\<close>

record run =
  video :: path
  video_stem :: pystr
  output_arg :: "path option"
  keep_audio :: bool
  api_key :: "pystr option"
  ffmpeg_found :: bool
  ffmpeg_returncode :: int
  ffmpeg_stderr :: pystr
  ffmpeg_wrote :: "nat option"
  tmp_dir :: path
  service :: "int \<Rightarrow> http_outcome"

text \<open>How a run ends: with an exit status, or with an exception nothing catches.\<close>

datatype outcome = Exited int | Raised error

definition extract_audio :: "run \<Rightarrow> path \<Rightarrow> filesystem \<Rightarrow> (error + unit) \<times> filesystem" where
  "extract_audio w output_path fs =
     (let fs1 = (case ffmpeg_wrote w of None \<Rightarrow> fs | Some n \<Rightarrow> write_file output_path (Bytes n) fs)
      in if ffmpeg_returncode w \<noteq> 0 then (Inl (FFmpegFailed (ffmpeg_stderr w)), fs1)
         else if \<not> exists output_path fs1 then (Inl FileNotFoundError, fs1)
         else (Inr (), fs1))"

text \<open>
  The body of the \<open>try\<close>. \<open>transcribe\<close> reads the size of the audio file and opens
  it: a directory at that path cannot be opened.
\<close>

definition transcribe_and_save ::
  "run \<Rightarrow> path \<Rightarrow> path \<Rightarrow> filesystem \<Rightarrow> (error + unit) \<times> filesystem" where
  "transcribe_and_save w audio_path output_path fs =
     (case (case map_of (files fs) audio_path of
              None \<Rightarrow>
                if audio_path \<in> set (dirs fs) then Inl OSError
                else transcribe (last audio_path) None (service w)
            | Some (Bytes n) \<Rightarrow> transcribe (last audio_path) (Some n) (service w)
            | Some (Json j) \<Rightarrow> Inl Unmodelled) of
        Inl e \<Rightarrow> (Inl e, fs)
      | Inr transcript \<Rightarrow>
          (case open_w output_path (Json transcript) fs of
             (Inl e, fs1) \<Rightarrow> (Inl e, fs1)
           | (Inr u, fs1) \<Rightarrow>
               (case print_transcript transcript of
                  (out, Some e) \<Rightarrow> (Inl e, fs1)
                | (out, None) \<Rightarrow> (Inr (), fs1))))"

text \<open>The \<open>finally\<close> block.\<close>

definition cleanup :: "run \<Rightarrow> path \<Rightarrow> filesystem \<Rightarrow> (error + unit) \<times> filesystem" where
  "cleanup w audio_path fs =
     (if \<not> keep_audio w \<and> exists audio_path fs
      then (case unlink audio_path fs of
              (Inl e, fs1) \<Rightarrow> (Inl e, fs1)
            | (Inr u, fs1) \<Rightarrow> rmdir (parent audio_path) fs1)
      else (Inr (), fs))"

text \<open>
  \<open>try: ... finally: ...\<close>: the \<open>finally\<close> block runs whatever the body did; an
  exception of the \<open>finally\<close> block replaces the one of the body.
\<close>

definition try_finally :: "run \<Rightarrow> path \<Rightarrow> path \<Rightarrow> filesystem \<Rightarrow> outcome \<times> filesystem" where
  "try_finally w audio_path output_path fs =
     (case transcribe_and_save w audio_path output_path fs of
        (body, fs1) \<Rightarrow>
          (case cleanup w audio_path fs1 of
             (Inl e, fs2) \<Rightarrow> (Raised e, fs2)
           | (Inr u, fs2) \<Rightarrow>
               (case body of Inl e \<Rightarrow> (Raised e, fs2) | Inr v \<Rightarrow> (Exited 0, fs2))))"

definition main :: "run \<Rightarrow> filesystem \<Rightarrow> outcome \<times> filesystem" where
  "main w fs =
     (if \<not> exists (video w) fs then (Exited 1, fs)
      else if api_key w = None \<or> api_key w = Some [] then (Exited 1, fs)
      else if \<not> ffmpeg_found w then (Exited 1, fs)
      else
        let output_path =
              (case output_arg w of
                 Some p \<Rightarrow> p
               | None \<Rightarrow> parent (video w) @ [video_stem w @ ascii ''_transcript.json''])
        in if keep_audio w
           then
             let audio_path = parent (video w) @ [video_stem w @ ascii ''.wav'']
             in (case extract_audio w audio_path fs of
                   (Inl e, fs1) \<Rightarrow> (Raised e, fs1)
                 | (Inr u, fs1) \<Rightarrow> try_finally w audio_path output_path fs1)
           else
             let fs0 = fs\<lparr>dirs := tmp_dir w # dirs fs\<rparr>;
                 audio_path = tmp_dir w @ [video_stem w @ ascii ''.wav'']
             in (case extract_audio w audio_path fs0 of
                   (Inl e, fs1) \<Rightarrow> (Raised e, fs1)
                 | (Inr u, fs1) \<Rightarrow> try_finally w audio_path output_path fs1))"

text \<open>
  A run of the scenario without \<open>--keep-audio\<close>: the video \<open>/home/talk.mp4\<close>, the
  temporary directory \<open>/tmp/tmpk3\<close>, and a file system holding the video.
\<close>

definition scenario_fs :: filesystem where
  "scenario_fs =
     \<lparr>files = [([ascii ''home'', ascii ''talk.mp4''], Bytes 4000000)],
      dirs = [[], [ascii ''home''], [ascii ''tmp'']]\<rparr>"

definition scenario_run :: run where
  "scenario_run =
     \<lparr>video = [ascii ''home'', ascii ''talk.mp4''],
      video_stem = ascii ''talk'',
      output_arg = None,
      keep_audio = False,
      api_key = Some (ascii ''key''),
      ffmpeg_found = True,
      ffmpeg_returncode = 0,
      ffmpeg_stderr = [],
      ffmpeg_wrote = Some 960044,
      tmp_dir = [ascii ''tmp'', ascii ''tmpk3''],
      service = (\<lambda>timeout. Response 200 [] (Inr scenario_response))\<rparr>"

text \<open>The same run with a video the transcoder cannot read: it exits with status 1.\<close>

definition failed_transcode_run :: run where
  "failed_transcode_run =
     scenario_run\<lparr>ffmpeg_returncode := 1,
                  ffmpeg_stderr := ascii ''Invalid data found when processing input'',
                  ffmpeg_wrote := None\<rparr>"

section \<open>Properties\<close>

subsection \<open>The timestamp formatter\<close>

lemma digits_lt10: "n < 10 \<Longrightarrow> digits n = [48 + n]"
  by (subst digits.simps) simp

lemma digits_ge10: "10 \<le> n \<Longrightarrow> digits n = digits (n div 10) @ [48 + n mod 10]"
  by (subst digits.simps) simp

lemma set_digits: "set (digits n) \<subseteq> {48..57}"
proof (induction n rule: digits.induct)
  case (1 n)
  show ?case
  proof (cases "n < 10")
    case True
    then show ?thesis by (simp add: digits_lt10)
  next
    case False
    then have "set (digits (n div 10)) \<subseteq> {48..57}" using 1 by simp
    moreover have "n mod 10 \<le> 9" by simp
    ultimately show ?thesis using False by (simp add: digits_ge10)
  qed
qed

lemma decimal_value_digits: "decimal_value (digits n) = n"
proof (induction n rule: digits.induct)
  case (1 n)
  show ?case
  proof (cases "n < 10")
    case True
    then show ?thesis by (simp add: digits_lt10 decimal_value_def)
  next
    case False
    then have "decimal_value (digits (n div 10)) = n div 10" using 1 by simp
    then show ?thesis using False by (simp add: digits_ge10 decimal_value_def)
  qed
qed

lemma format_02d_small:
  assumes "0 \<le> n" "n < 100"
  shows "format_02d n = two_digits n"
proof (cases "n < 10")
  case True
  with assms have "nat n < 10" "n div 10 = 0" "n mod 10 = n" by auto
  with assms show ?thesis
    by (simp add: format_02d_def two_digits_def zfill_def digits_lt10)
next
  case False
  with assms have a: "10 \<le> nat n" and b: "nat n div 10 < 10" by auto
  have c: "nat (n div 10) = nat n div 10" "nat (n mod 10) = nat n mod 10"
    using assms by (simp_all add: nat_div_distrib nat_mod_distrib)
  from assms False show ?thesis
    by (simp add: format_02d_def two_digits_def zfill_def digits_ge10[OF a] digits_lt10[OF b] c)
qed

lemma str_int_nonneg: "0 \<le> i \<Longrightarrow> str_int i = digits (nat i)"
  by (simp add: str_int_def)

lemma minutes_field: "(t::int) mod 3600 div 60 = t div 60 mod 60"
proof -
  have "t mod (60 * 60) = 60 * (t div 60 mod 60) + t mod 60"
    by (rule zmod_zmult2_eq) simp
  then have "t mod 3600 div 60 = (60 * (t div 60 mod 60) + t mod 60) div 60" by simp
  also have "\<dots> = t div 60 mod 60" by simp
  finally show ?thesis .
qed

lemma minutes_under_hour:
  assumes "0 \<le> t" "(t::int) < 3600" shows "t div 60 mod 60 = t div 60"
proof -
  from assms have "t mod 3600 = t" by simp
  with minutes_field[of t] show ?thesis by simp
qed

lemma seconds_field: "(t::int) mod 3600 mod 60 = t mod 60"
  by (simp add: mod_mod_cancel)

lemma hours_pos_iff: "0 \<le> (t::int) \<Longrightarrow> 0 < t div 3600 \<longleftrightarrow> 3600 \<le> t"
  by (auto simp add: pos_imp_zdiv_pos_iff)

lemma format_timestamp_whole:
  assumes "py_int x = Inr t" "0 \<le> t"
  shows "format_timestamp x = Inr (spec_timestamp t)"
proof -
  have m: "0 \<le> t div 60 mod 60" "t div 60 mod 60 < 100"
    and s: "0 \<le> t mod 60" "t mod 60 < 100"
    by (simp_all add: order_less_trans[OF pos_mod_bound])
  show ?thesis
  proof (cases "t < 3600")
    case True
    then have "\<not> 0 < t div 3600" using hours_pos_iff[OF assms(2)] by simp
    moreover have "0 \<le> t div 60" using assms(2) by (simp add: pos_imp_zdiv_nonneg_iff)
    ultimately show ?thesis using assms(1) True
      by (simp add: format_timestamp_def Let_def spec_timestamp_def minutes_field seconds_field
          minutes_under_hour[OF assms(2) True] str_int_nonneg format_02d_small[OF s])
  next
    case False
    then have "0 < t div 3600" using hours_pos_iff[OF assms(2)] by simp
    then show ?thesis using assms(1) False
      by (simp add: format_timestamp_def Let_def spec_timestamp_def minutes_field seconds_field
          str_int_nonneg format_02d_small[OF s] format_02d_small[OF m])
  qed
qed

lemma py_int_nonneg_seconds:
  "nonneg_seconds x \<Longrightarrow> py_int x = Inr (whole_seconds x) \<and> 0 \<le> whole_seconds x"
  by (auto simp: nonneg_seconds_def whole_seconds_def trunc_def split: json.splits pyfloat.splits)

text \<open>
  C2. On non-negative seconds the formatter keeps the whole seconds, rounding nothing up,
  and returns \<open>{minutes}m{seconds:02}s\<close> under one hour and
  \<open>{hours}h{minutes:02}m{seconds:02}s\<close> otherwise; 0 gives \<open>0m00s\<close>, 59 gives \<open>0m59s\<close>,
  60 gives \<open>1m00s\<close>, 3661 gives \<open>1h01m01s\<close> and 1.9 gives \<open>0m01s\<close> (1.9 read as the
  decimal and as the double nearest to it).
\<close>

theorem format_timestamp_spec:
  "(nonneg_seconds x \<longrightarrow> format_timestamp x = Inr (spec_timestamp (whole_seconds x)))
   \<and> format_timestamp (JInt 0) = Inr (ascii ''0m00s'')
   \<and> format_timestamp (JInt 59) = Inr (ascii ''0m59s'')
   \<and> format_timestamp (JInt 60) = Inr (ascii ''1m00s'')
   \<and> format_timestamp (JInt 3661) = Inr (ascii ''1h01m01s'')
   \<and> format_timestamp (JFloat (Finite (19 / 10))) = Inr (ascii ''0m01s'')
   \<and> format_timestamp (JFloat (Finite (8556839292003942 / 4503599627370496))) = Inr (ascii ''0m01s'')"
proof -
  have g: "nonneg_seconds x \<longrightarrow> format_timestamp x = Inr (spec_timestamp (whole_seconds x))"
    using py_int_nonneg_seconds[of x] format_timestamp_whole[of x "whole_seconds x"] by blast
  have e0: "format_timestamp (JInt 0) = Inr (ascii ''0m00s'')" by code_simp
  have e1: "format_timestamp (JInt 59) = Inr (ascii ''0m59s'')" by code_simp
  have e2: "format_timestamp (JInt 60) = Inr (ascii ''1m00s'')" by code_simp
  have e3: "format_timestamp (JInt 3661) = Inr (ascii ''1h01m01s'')" by code_simp
  have e4: "format_timestamp (JFloat (Finite (19 / 10))) = Inr (ascii ''0m01s'')" by code_simp
  have e5: "format_timestamp (JFloat (Finite (8556839292003942 / 4503599627370496))) = Inr (ascii ''0m01s'')"
    by code_simp
  from g e0 e1 e2 e3 e4 e5 show ?thesis by blast
qed

theorem format_timestamp_spec_witness:
  "nonneg_seconds (JFloat (Finite (7325 / 2)))
   \<and> whole_seconds (JFloat (Finite (7325 / 2))) = 3662
   \<and> format_timestamp (JFloat (Finite (7325 / 2))) = Inr (ascii ''1h01m02s'')"
proof -
  have a: "nonneg_seconds (JFloat (Finite (7325 / 2)))" by (simp add: nonneg_seconds_def)
  have b: "whole_seconds (JFloat (Finite (7325 / 2))) = 3662" by code_simp
  have c: "spec_timestamp 3662 = ascii ''1h01m02s''" by code_simp
  from format_timestamp_spec[of "JFloat (Finite (7325 / 2))"] a b c show ?thesis by simp
qed


lemma set_two_digits: "0 \<le> n \<Longrightarrow> n < 100 \<Longrightarrow> set (two_digits n) \<subseteq> {48..57}"
proof -
  assume a: "0 \<le> n" "n < 100"
  then have "n div 10 < 10" by simp
  moreover have "n mod 10 < 10" by simp
  ultimately have "nat (n div 10) \<le> 9" "nat (n mod 10) \<le> 9" by simp_all
  then show ?thesis by (simp add: two_digits_def)
qed

lemma h_in_spec_timestamp:
  assumes "0 \<le> t"
  shows "of_char CHR ''h'' \<in> set (spec_timestamp t) \<longleftrightarrow> 3600 \<le> t"
proof -
  have d: "\<And>n. (104::nat) \<notin> set (digits n)" using set_digits by fastforce
  have m: "(104::nat) \<notin> set (two_digits (t div 60 mod 60))"
    using set_two_digits[of "t div 60 mod 60"] by (fastforce simp: order_less_trans[OF pos_mod_bound])
  have s: "(104::nat) \<notin> set (two_digits (t mod 60))"
    using set_two_digits[of "t mod 60"] by (fastforce simp: order_less_trans[OF pos_mod_bound])
  show ?thesis using d m s by (simp add: spec_timestamp_def ascii_def)
qed

text \<open>
  C10. On non-negative seconds the output is in clock form: the whole seconds are
  \<open>3600 h + 60 m + s\<close> with \<open>s\<close> in \<open>[0, 60)\<close> and printed as two digits, \<open>m\<close> in
  \<open>[0, 60)\<close> whenever the hours are printed, and the hours are printed (the letter
  \<open>h\<close> occurs in the output) if and only if the whole seconds are at least 3600.
\<close>

theorem format_timestamp_canonical:
  assumes "nonneg_seconds x"
  shows "\<exists>h m s out.
           whole_seconds x = 3600 * h + 60 * m + s
         \<and> 0 \<le> h \<and> 0 \<le> m \<and> 0 \<le> s \<and> s < 60 \<and> (0 < h \<longrightarrow> m < 60)
         \<and> (0 < h \<longleftrightarrow> 3600 \<le> whole_seconds x)
         \<and> format_timestamp x = Inr out
         \<and> out = (if 0 < h then digits (nat h) @ ascii ''h'' @ two_digits m else digits (nat m))
                 @ ascii ''m'' @ two_digits s @ ascii ''s''
         \<and> (of_char CHR ''h'' \<in> set out \<longleftrightarrow> 3600 \<le> whole_seconds x)"
proof -
  define t where "t = whole_seconds x"
  from assms have p: "py_int x = Inr t" and nn: "0 \<le> t"
    using py_int_nonneg_seconds[of x] by (simp_all add: t_def)
  have f: "format_timestamp x = Inr (spec_timestamp t)"
    by (rule format_timestamp_whole[OF p nn])
  define h where "h = t div 3600"
  define m where "m = t div 60 mod 60"
  define s where "s = t mod 60"
  have dec: "t = 3600 * h + 60 * m + s"
  proof -
    have "t = 3600 * (t div 3600) + t mod 3600" by simp
    also have "t mod 3600 = 60 * (t mod 3600 div 60) + t mod 3600 mod 60" by simp
    finally show ?thesis by (simp add: h_def m_def s_def minutes_field seconds_field)
  qed
  have hp: "0 < h \<longleftrightarrow> 3600 \<le> t" unfolding h_def by (rule hours_pos_iff[OF nn])
  have h0: "0 \<le> h" using nn by (simp add: h_def pos_imp_zdiv_nonneg_iff)
  have rng: "0 \<le> m" "m < 60" "0 \<le> s" "s < 60" by (simp_all add: m_def s_def)
  have out: "spec_timestamp t = (if 0 < h then digits (nat h) @ ascii ''h'' @ two_digits m else digits (nat m))
                 @ ascii ''m'' @ two_digits s @ ascii ''s''"
  proof (cases "t < 3600")
    case True
    then have "\<not> 0 < h" using hp by simp
    then show ?thesis using True minutes_under_hour[OF nn True]
      by (simp add: spec_timestamp_def m_def s_def)
  next
    case False
    then have "0 < h" using hp by simp
    then show ?thesis using False by (simp add: spec_timestamp_def m_def s_def h_def)
  qed
  have hh: "of_char CHR ''h'' \<in> set (spec_timestamp t) \<longleftrightarrow> 3600 \<le> t"
    by (rule h_in_spec_timestamp[OF nn])
  show ?thesis
    apply (rule exI[of _ h], rule exI[of _ m], rule exI[of _ s], rule exI[of _ "spec_timestamp t"])
    using dec h0 rng hp f out hh unfolding t_def[symmetric] by simp
qed

theorem format_timestamp_canonical_witness:
  "nonneg_seconds (JInt 7384) \<and> format_timestamp (JInt 7384) = Inr (ascii ''2h03m04s'')
   \<and> (\<exists>h m s. (7384::int) = 3600 * h + 60 * m + s \<and> 0 < h \<and> 0 \<le> m \<and> m < 60 \<and> 0 \<le> s \<and> s < 60)"
proof -
  have a: "nonneg_seconds (JInt 7384)" by (simp add: nonneg_seconds_def)
  have b: "whole_seconds (JInt 7384) = 7384" by (simp add: whole_seconds_def)
  have c: "format_timestamp (JInt 7384) = Inr (ascii ''2h03m04s'')" by code_simp
  from format_timestamp_canonical[OF a] obtain h m s :: int where
    "7384 = 3600 * h + 60 * m + s" "0 \<le> h" "0 \<le> m" "0 \<le> s" "s < 60" "0 < h \<longrightarrow> m < 60"
    "0 < h \<longleftrightarrow> 3600 \<le> (7384::int)"
    unfolding b by blast
  then have "(7384::int) = 3600 * h + 60 * m + s \<and> 0 < h \<and> 0 \<le> m \<and> m < 60 \<and> 0 \<le> s \<and> s < 60"
    by simp
  then have "\<exists>h m s. (7384::int) = 3600 * h + 60 * m + s \<and> 0 < h \<and> 0 \<le> m \<and> m < 60 \<and> 0 \<le> s \<and> s < 60"
    by blast
  with a c show ?thesis by blast
qed

subsection \<open>The normaliser of \<open>transcribe\<close>\<close>

lemma bind_err_Inr [simp]: "bind_err (Inr x) f = f x"
  by (simp add: bind_err_def)

lemma bind_err_Inl [simp]: "bind_err (Inl e) f = Inl e"
  by (simp add: bind_err_def)

lemma bind_err_eq_Inr: "bind_err m f = Inr y \<longleftrightarrow> (\<exists>x. m = Inr x \<and> f x = Inr y)"
  by (cases m) simp_all

lemma dict_get_eq_Inr: "dict_get obj k d = Inr v \<longleftrightarrow> (\<exists>kvs. obj = JObj kvs \<and> v = field_or obj k d)"
  by (cases obj) (auto simp: field_or_def)

lemma dict_get_obj: "dict_get (JObj kvs) k d = Inr (field_or (JObj kvs) k d)"
  by (simp add: field_or_def)

lemma normalize_word_obj: "normalize_word (JObj kvs) = Inr (spec_word (JObj kvs))"
  by (simp add: normalize_word_def spec_word_def field_or_def)

lemma normalize_word_Inr: "normalize_word w = Inr d \<Longrightarrow> is_obj w \<and> d = spec_word w"
  by (cases w) (auto simp: normalize_word_def is_obj_def spec_word_def field_or_def)

lemma normalize_words_Inr:
  "normalize_words ws = Inr ds \<Longrightarrow> list_all is_obj ws \<and> ds = map spec_word ws"
proof (induction ws arbitrary: ds)
  case Nil
  then show ?case by simp
next
  case (Cons w ws)
  from Cons.prems obtain d ds' where d: "normalize_word w = Inr d"
    and r: "normalize_words ws = Inr ds'" and e: "ds = d # ds'"
    by (auto split: sum.splits)
  from normalize_word_Inr[OF d] Cons.IH[OF r] e show ?case by simp
qed

lemma normalize_words_schema:
  "list_all is_obj ws \<Longrightarrow> normalize_words ws = Inr (map spec_word ws)"
proof (induction ws)
  case Nil
  then show ?case by simp
next
  case (Cons w ws)
  then obtain kvs where "w = JObj kvs" by (cases w) (simp_all add: is_obj_def)
  with Cons show ?case by (simp add: normalize_word_obj)
qed

lemma key_neq [simp]:
  "ascii ''words'' \<noteq> ascii ''start''" "ascii ''words'' \<noteq> ascii ''end''"
  "ascii ''words'' \<noteq> ascii ''text''" "ascii ''start'' \<noteq> ascii ''end''"
  "ascii ''start'' \<noteq> ascii ''text''" "ascii ''end'' \<noteq> ascii ''text''"
  "ascii ''start'' \<noteq> ascii ''words''" "ascii ''end'' \<noteq> ascii ''words''"
  "ascii ''text'' \<noteq> ascii ''words''" "ascii ''end'' \<noteq> ascii ''start''"
  "ascii ''text'' \<noteq> ascii ''start''" "ascii ''text'' \<noteq> ascii ''end''"
  by (simp_all add: ascii_def)

lemma has_field_map_of: "has_field (JObj kvs) k \<longleftrightarrow> map_of kvs k \<noteq> None"
  by (simp add: has_field_def map_of_eq_None_iff)

lemma subscript_eq_Inr: "subscript obj k = Inr v \<longleftrightarrow> (\<exists>kvs. obj = JObj kvs \<and> map_of kvs k = Some v)"
  by (cases obj) (auto split: option.splits)

lemma subscript_absent: "\<not> has_field obj k \<Longrightarrow> \<exists>e. subscript obj k = Inl e"
  by (cases obj) (auto simp: has_field_map_of)

lemma py_strip_eq_Inr: "py_strip t = Inr v \<longleftrightarrow> (\<exists>s. t = JStr s \<and> v = JStr (strip s))"
  by (cases t) auto

text \<open>What a successful turn of the loop has read and built.\<close>

lemma normalize_segment_Inr:
  assumes "normalize_segment seg = Inr n"
  shows "is_obj seg \<and> is_str (field_or seg (ascii ''text'') (JStr []))
         \<and> (has_field seg (ascii ''words'') \<longrightarrow>
              (\<exists>ws. py_iter (field_or seg (ascii ''words'') JNull) = Inr ws \<and> list_all is_obj ws
                 \<and> n = JObj [(ascii ''start'', field_or seg (ascii ''start'') (JInt 0)),
                        (ascii ''end'', field_or seg (ascii ''end'') (JInt 0)),
                        (ascii ''text'', JStr (strip (str_of (field_or seg (ascii ''text'') (JStr []))))),
                        (ascii ''words'', JArr (map spec_word ws))]))
         \<and> (\<not> has_field seg (ascii ''words'') \<longrightarrow>
                 n = JObj [(ascii ''start'', field_or seg (ascii ''start'') (JInt 0)),
                        (ascii ''end'', field_or seg (ascii ''end'') (JInt 0)),
                        (ascii ''text'', JStr (strip (str_of (field_or seg (ascii ''text'') (JStr [])))))])"
proof -
  from assms obtain kvs where seg: "seg = JObj kvs"
    by (cases seg) (simp_all add: normalize_segment_def)
  from assms obtain s where t: "field_or seg (ascii ''text'') (JStr []) = JStr s"
    unfolding seg normalize_segment_def
    by (auto simp: bind_err_eq_Inr py_strip_eq_Inr field_or_def)
  show ?thesis
  proof (cases "map_of kvs (ascii ''words'')")
    case None
    with assms t show ?thesis unfolding seg
      by (auto simp: normalize_segment_def field_or_def is_obj_def is_str_def str_of_def
          has_field_map_of bind_err_eq_Inr py_strip_eq_Inr)
  next
    case (Some v)
    with assms t obtain ws ds where i: "py_iter v = Inr ws" and w: "normalize_words ws = Inr ds"
      and n: "n = JObj [(ascii ''start'', field_or seg (ascii ''start'') (JInt 0)),
                        (ascii ''end'', field_or seg (ascii ''end'') (JInt 0)),
                        (ascii ''text'', JStr (strip s)), (ascii ''words'', JArr ds)]"
      unfolding seg
      by (auto simp: normalize_segment_def field_or_def bind_err_eq_Inr py_strip_eq_Inr)
    from normalize_words_Inr[OF w] i n t Some show ?thesis unfolding seg
      by (simp add: is_obj_def is_str_def str_of_def has_field_map_of field_or_def)
  qed
qed

lemma normalize_segment_schema:
  assumes "schema_segment seg"
  shows "normalize_segment seg = Inr (spec_segment seg)"
proof -
  from assms obtain kvs where seg: "seg = JObj kvs"
    by (cases seg) (simp_all add: schema_segment_def)
  from assms have t: "optional is_str kvs (ascii ''text'')"
    and w: "optional schema_words kvs (ascii ''words'')"
    by (simp_all add: seg schema_segment_def)
  from t obtain s where s: "field_or seg (ascii ''text'') (JStr []) = JStr s"
    by (cases "map_of kvs (ascii ''text'')")
       (auto simp: seg optional_def field_or_def is_str_def split: json.splits)
  show ?thesis
  proof (cases "map_of kvs (ascii ''words'')")
    case None
    with s show ?thesis
      by (simp add: seg normalize_segment_def spec_segment_def field_or_def has_field_map_of
          str_of_def)
  next
    case (Some v)
    with w obtain ws where v: "v = JArr ws" and ws: "list_all is_obj ws"
      by (cases v) (simp_all add: optional_def schema_words_def)
    from Some s v normalize_words_schema[OF ws] show ?thesis
      by (simp add: seg normalize_segment_def spec_segment_def field_or_def has_field_map_of
          str_of_def elems_def)
  qed
qed

lemma normalize_segments_Inr:
  "normalize_segments xs acc = Inr out \<Longrightarrow>
     \<exists>ns. out = acc @ ns \<and> length ns = length xs
          \<and> (\<forall>i<length xs. normalize_segment (xs ! i) = Inr (ns ! i))"
proof (induction xs arbitrary: acc)
  case Nil
  then show ?case by simp
next
  case (Cons x xs)
  from Cons.prems obtain d where d: "normalize_segment x = Inr d"
    and r: "normalize_segments xs (acc @ [d]) = Inr out"
    by (auto split: sum.splits)
  from Cons.IH[OF r] obtain ns where ns: "out = (acc @ [d]) @ ns" "length ns = length xs"
    "\<forall>i<length xs. normalize_segment (xs ! i) = Inr (ns ! i)" by blast
  have "\<forall>i<length (x # xs). normalize_segment ((x # xs) ! i) = Inr ((d # ns) ! i)"
    using d ns(3) by (auto simp: nth_Cons split: nat.splits)
  with ns(1,2) show ?case by (intro exI[of _ "d # ns"]) simp
qed

lemma normalize_segments_schema:
  "list_all schema_segment xs \<Longrightarrow> normalize_segments xs acc = Inr (acc @ map spec_segment xs)"
  by (induction xs arbitrary: acc) (simp_all add: normalize_segment_schema)

lemma format_timestamp_number: "is_number d \<Longrightarrow> \<exists>s. format_timestamp d = Inr s"
  by (cases d) (auto simp: is_number_def format_timestamp_def Let_def split: pyfloat.splits)

lemma normalize_schema:
  assumes "schema_response r"
  shows "normalize audio_name r = Inr (spec_transcript audio_name r)"
proof -
  from assms obtain kvs where r: "r = JObj kvs"
    by (cases r) (simp_all add: schema_response_def)
  from assms have d: "optional is_number kvs (ascii ''duration'')"
    and g: "optional schema_segments kvs (ascii ''segments'')"
    by (simp_all add: r schema_response_def)
  from d have "is_number (field_or r (ascii ''duration'') (JInt 0))"
    by (cases "map_of kvs (ascii ''duration'')") (simp_all add: r optional_def field_or_def is_number_def)
  then obtain shown where sh: "format_timestamp (field_or r (ascii ''duration'') (JInt 0)) = Inr shown"
    using format_timestamp_number by blast
  from g obtain segs where segs: "field_or r (ascii ''segments'') (JArr []) = JArr segs"
    and all: "list_all schema_segment segs"
    by (cases "map_of kvs (ascii ''segments'')")
       (auto simp: r optional_def field_or_def schema_segments_def split: json.splits)
  from sh segs normalize_segments_schema[OF all, of "[]"] show ?thesis
    by (simp add: r normalize_def spec_transcript_def dict_get_obj elems_def del: dict_get.simps)
qed

lemma normalize_Inr:
  assumes "normalize audio_name r = Inr t"
  shows "\<exists>xs ns. bind_err (dict_get r (ascii ''segments'') (JArr [])) py_iter = Inr xs
           \<and> normalize_segments xs [] = Inr ns
           \<and> t = JObj [(ascii ''audio_file'', JStr audio_name),
                       (ascii ''language'', field_or r (ascii ''language'') (JStr (ascii ''en''))),
                       (ascii ''duration'', field_or r (ascii ''duration'') (JInt 0)),
                       (ascii ''segments'', JArr ns)]"
  using assms unfolding normalize_def
  by (auto simp: bind_err_eq_Inr dict_get_eq_Inr)

lemma transcribe_Inr:
  "transcribe audio_name st post = Inr t \<longleftrightarrow>
     (\<exists>st_size text r. st = Some st_size
        \<and> post (request_timeout st_size) = Response 200 text (Inr r)
        \<and> normalize audio_name r = Inr t)"
  by (auto simp: transcribe_def bind_err_eq_Inr split: option.splits http_outcome.splits if_splits)

lemma strip_decompose:
  "\<exists>a b. s = a @ strip s @ b \<and> list_all is_space a \<and> list_all is_space b"
proof -
  define a where "a = takeWhile is_space s"
  define m where "m = dropWhile is_space s"
  define b where "b = rev (takeWhile is_space (rev m))"
  have "s = a @ m" by (simp add: a_def m_def)
  moreover have "rev m = takeWhile is_space (rev m) @ dropWhile is_space (rev m)" by simp
  then have "m = strip s @ b"
    unfolding strip_def b_def m_def by (metis rev_append rev_rev_ident)
  moreover have "list_all is_space a"
    unfolding a_def list_all_iff using set_takeWhileD by fastforce
  moreover have "list_all is_space b"
    unfolding b_def list_all_iff using set_takeWhileD by fastforce
  ultimately show ?thesis by blast
qed

lemma strip_ends:
  assumes "strip s \<noteq> []"
  shows "\<not> is_space (hd (strip s)) \<and> \<not> is_space (last (strip s))"
proof -
  define m where "m = dropWhile is_space s"
  define k where "k = dropWhile is_space (rev m)"
  have st: "strip s = rev k" by (simp add: strip_def k_def m_def)
  with assms have k: "k \<noteq> []" by simp
  then have l: "\<not> is_space (hd k)" unfolding k_def by (rule hd_dropWhile)
  have "last (strip s) = hd k" using k by (simp add: st last_rev)
  with l have 1: "\<not> is_space (last (strip s))" by simp
  have mne: "m \<noteq> []" using k by (auto simp: k_def)
  then have hm: "\<not> is_space (hd m)" unfolding m_def by (rule hd_dropWhile)
  have "rev m = takeWhile is_space (rev m) @ k" by (simp add: k_def)
  then have "m = rev k @ rev (takeWhile is_space (rev m))"
    by (metis rev_append rev_rev_ident)
  then have "hd m = hd (rev k)" using k by (metis hd_append2 rev_is_Nil_conv)
  with hm have 2: "\<not> is_space (hd (strip s))" by (simp add: st)
  from 1 2 show ?thesis by simp
qed

lemma subscript_spec_segment:
  "subscript (spec_segment seg) (ascii ''start'') = Inr (field_or seg (ascii ''start'') (JInt 0))"
  "subscript (spec_segment seg) (ascii ''end'') = Inr (field_or seg (ascii ''end'') (JInt 0))"
  "subscript (spec_segment seg) (ascii ''text'')
     = Inr (JStr (strip (str_of (field_or seg (ascii ''text'') (JStr [])))))"
  by (simp_all add: spec_segment_def)

lemma field_or_absent: "\<not> has_field obj k \<Longrightarrow> field_or obj k d = d"
  by (cases obj) (auto simp: field_or_def has_field_map_of)

lemma field_or_present: "subscript obj k = Inr v \<Longrightarrow> field_or obj k d = v"
  by (auto simp: subscript_eq_Inr field_or_def)

lemma response_segments_schema:
  assumes "schema_response r"
  shows "response_segments r = elems (field_or r (ascii ''segments'') (JArr []))
         \<and> list_all schema_segment (response_segments r)"
proof -
  from assms obtain kvs where r: "r = JObj kvs"
    by (cases r) (simp_all add: schema_response_def)
  from assms have g: "optional schema_segments kvs (ascii ''segments'')"
    by (simp_all add: r schema_response_def)
  then show ?thesis
    by (cases "map_of kvs (ascii ''segments'')")
       (auto simp: r optional_def field_or_def schema_segments_def response_segments_def elems_def
             split: json.splits)
qed

lemma response_segments_list:
  "subscript r (ascii ''segments'') = Inr (JArr segs) \<Longrightarrow> response_segments r = segs"
  by (auto simp: subscript_eq_Inr response_segments_def)

lemma subscript_spec_transcript:
  "subscript (spec_transcript a r) (ascii ''language'')
     = Inr (field_or r (ascii ''language'') (JStr (ascii ''en'')))"
  "subscript (spec_transcript a r) (ascii ''duration'')
     = Inr (field_or r (ascii ''duration'') (JInt 0))"
  "subscript (spec_transcript a r) (ascii ''segments'')
     = Inr (JArr (map spec_segment (elems (field_or r (ascii ''segments'') (JArr [])))))"
  by (simp_all add: spec_transcript_def ascii_def)

text \<open>
  C4. A normalised segment has the key \<open>words\<close> if and only if the segment of the
  response has it. Without it the normalised segment has the keys \<open>start\<close>, \<open>end\<close>
  and \<open>text\<close> and no other, so reading \<open>words\<close> raises \<open>KeyError\<close>: there is no
  empty list and no null in its place.
\<close>

theorem words_key_iff_source:
  assumes "normalize_segment seg = Inr n"
  shows "(has_field n (ascii ''words'') \<longleftrightarrow> has_field seg (ascii ''words''))
       \<and> (\<not> has_field seg (ascii ''words'') \<longrightarrow>
            keys n = [ascii ''start'', ascii ''end'', ascii ''text'']
            \<and> subscript n (ascii ''words'') = Inl KeyError)
       \<and> (has_field seg (ascii ''words'') \<longrightarrow>
            keys n = [ascii ''start'', ascii ''end'', ascii ''text'', ascii ''words'']
            \<and> (\<exists>ds. subscript n (ascii ''words'') = Inr (JArr ds)))"
proof (cases "has_field seg (ascii ''words'')")
  case True
  with normalize_segment_Inr[OF assms] obtain ws where
    "n = JObj [(ascii ''start'', field_or seg (ascii ''start'') (JInt 0)),
               (ascii ''end'', field_or seg (ascii ''end'') (JInt 0)),
               (ascii ''text'', JStr (strip (str_of (field_or seg (ascii ''text'') (JStr []))))),
               (ascii ''words'', JArr (map spec_word ws))]"
    by blast
  with True show ?thesis by (simp add: has_field_def keys_def)
next
  case False
  with normalize_segment_Inr[OF assms] have
    "n = JObj [(ascii ''start'', field_or seg (ascii ''start'') (JInt 0)),
               (ascii ''end'', field_or seg (ascii ''end'') (JInt 0)),
               (ascii ''text'', JStr (strip (str_of (field_or seg (ascii ''text'') (JStr [])))))]"
    by blast
  with False show ?thesis by (simp add: has_field_def keys_def)
qed

theorem words_key_iff_source_witness:
  "normalize_segment (JObj [(ascii ''text'', JStr (ascii '' hi ''))])
     = Inr (JObj [(ascii ''start'', JInt 0), (ascii ''end'', JInt 0), (ascii ''text'', JStr (ascii ''hi''))])
   \<and> \<not> has_field (JObj [(ascii ''start'', JInt 0), (ascii ''end'', JInt 0), (ascii ''text'', JStr (ascii ''hi''))])
          (ascii ''words'')
   \<and> normalize_segment (JObj [(ascii ''words'', JArr [])])
     = Inr (JObj [(ascii ''start'', JInt 0), (ascii ''end'', JInt 0), (ascii ''text'', JStr []),
                  (ascii ''words'', JArr [])])
   \<and> has_field (JObj [(ascii ''start'', JInt 0), (ascii ''end'', JInt 0), (ascii ''text'', JStr []),
                  (ascii ''words'', JArr [])]) (ascii ''words'')"
proof -
  have a: "normalize_segment (JObj [(ascii ''text'', JStr (ascii '' hi ''))])
     = Inr (JObj [(ascii ''start'', JInt 0), (ascii ''end'', JInt 0), (ascii ''text'', JStr (ascii ''hi''))])"
    by (simp add: normalize_segment_def strip_def is_space_def ascii_def)
  have b: "normalize_segment (JObj [(ascii ''words'', JArr [])])
     = Inr (JObj [(ascii ''start'', JInt 0), (ascii ''end'', JInt 0), (ascii ''text'', JStr []),
                  (ascii ''words'', JArr [])])"
    by (simp add: normalize_segment_def strip_def is_space_def ascii_def)
  have c: "\<not> has_field (JObj [(ascii ''text'', JStr (ascii '' hi ''))]) (ascii ''words'')"
    by (simp add: has_field_def ascii_def)
  have d: "has_field (JObj [(ascii ''words'', JArr [])]) (ascii ''words'')"
    by (simp add: has_field_def)
  from words_key_iff_source[OF a] words_key_iff_source[OF b] a b c d show ?thesis by simp
qed

text \<open>
  C9. An entry of \<open>words\<close> that is an object is normalised, without failure, to the
  keys \<open>word\<close>, \<open>start\<close> and \<open>end\<close> in this order, a missing \<open>word\<close> being the empty
  string and a missing \<open>start\<close> or \<open>end\<close> being 0; the normalised \<open>words\<close> of a
  segment are the normalised entries of its \<open>words\<close> list, in order.
\<close>

theorem words_entries_normalized:
  "normalize_word (JObj kvs)
     = Inr (JObj [(ascii ''word'', field_or (JObj kvs) (ascii ''word'') (JStr [])),
                  (ascii ''start'', field_or (JObj kvs) (ascii ''start'') (JInt 0)),
                  (ascii ''end'', field_or (JObj kvs) (ascii ''end'') (JInt 0))])
   \<and> (normalize_segment seg = Inr n \<and> subscript seg (ascii ''words'') = Inr (JArr ws) \<longrightarrow>
        (\<exists>ds. subscript n (ascii ''words'') = Inr (JArr ds) \<and> length ds = length ws
           \<and> (\<forall>i<length ws. is_obj (ws ! i)
                  \<and> normalize_word (ws ! i) = Inr (ds ! i)
                  \<and> keys (ds ! i) = [ascii ''word'', ascii ''start'', ascii ''end'']
                  \<and> subscript (ds ! i) (ascii ''word'')
                      = Inr (field_or (ws ! i) (ascii ''word'') (JStr []))
                  \<and> subscript (ds ! i) (ascii ''start'')
                      = Inr (field_or (ws ! i) (ascii ''start'') (JInt 0))
                  \<and> subscript (ds ! i) (ascii ''end'')
                      = Inr (field_or (ws ! i) (ascii ''end'') (JInt 0)))))
   \<and> (schema_segment seg \<longrightarrow> (\<exists>n. normalize_segment seg = Inr n))"
proof (intro conjI impI)
  show "normalize_word (JObj kvs)
     = Inr (JObj [(ascii ''word'', field_or (JObj kvs) (ascii ''word'') (JStr [])),
                  (ascii ''start'', field_or (JObj kvs) (ascii ''start'') (JInt 0)),
                  (ascii ''end'', field_or (JObj kvs) (ascii ''end'') (JInt 0))])"
    using normalize_word_obj[of kvs] by (simp add: spec_word_def)
next
  assume "schema_segment seg"
  then show "\<exists>n. normalize_segment seg = Inr n" using normalize_segment_schema by blast
next
  assume a: "normalize_segment seg = Inr n \<and> subscript seg (ascii ''words'') = Inr (JArr ws)"
  then have hf: "has_field seg (ascii ''words'')"
    and fo: "field_or seg (ascii ''words'') JNull = JArr ws"
    by (auto simp: subscript_eq_Inr has_field_map_of field_or_def)
  from a hf fo normalize_segment_Inr[of seg n] have all: "list_all is_obj ws"
    and n: "n = JObj [(ascii ''start'', field_or seg (ascii ''start'') (JInt 0)),
               (ascii ''end'', field_or seg (ascii ''end'') (JInt 0)),
               (ascii ''text'', JStr (strip (str_of (field_or seg (ascii ''text'') (JStr []))))),
               (ascii ''words'', JArr (map spec_word ws))]"
    by auto
  have "\<forall>i<length ws. is_obj (ws ! i)
                  \<and> normalize_word (ws ! i) = Inr (map spec_word ws ! i)
                  \<and> keys (map spec_word ws ! i) = [ascii ''word'', ascii ''start'', ascii ''end'']
                  \<and> subscript (map spec_word ws ! i) (ascii ''word'')
                      = Inr (field_or (ws ! i) (ascii ''word'') (JStr []))
                  \<and> subscript (map spec_word ws ! i) (ascii ''start'')
                      = Inr (field_or (ws ! i) (ascii ''start'') (JInt 0))
                  \<and> subscript (map spec_word ws ! i) (ascii ''end'')
                      = Inr (field_or (ws ! i) (ascii ''end'') (JInt 0))"
  proof (intro allI impI)
    fix i assume i: "i < length ws"
    with all have o: "is_obj (ws ! i)" by (simp add: list_all_length)
    then obtain wk where wk: "ws ! i = JObj wk" by (cases "ws ! i") (simp_all add: is_obj_def)
    have "normalize_word (ws ! i) = Inr (spec_word (ws ! i))"
      unfolding wk by (rule normalize_word_obj)
    with o i show "is_obj (ws ! i)
                  \<and> normalize_word (ws ! i) = Inr (map spec_word ws ! i)
                  \<and> keys (map spec_word ws ! i) = [ascii ''word'', ascii ''start'', ascii ''end'']
                  \<and> subscript (map spec_word ws ! i) (ascii ''word'')
                      = Inr (field_or (ws ! i) (ascii ''word'') (JStr []))
                  \<and> subscript (map spec_word ws ! i) (ascii ''start'')
                      = Inr (field_or (ws ! i) (ascii ''start'') (JInt 0))
                  \<and> subscript (map spec_word ws ! i) (ascii ''end'')
                      = Inr (field_or (ws ! i) (ascii ''end'') (JInt 0))"
      by (simp add: spec_word_def keys_def ascii_def)
  qed
  then show "\<exists>ds. subscript n (ascii ''words'') = Inr (JArr ds) \<and> length ds = length ws
           \<and> (\<forall>i<length ws. is_obj (ws ! i)
                  \<and> normalize_word (ws ! i) = Inr (ds ! i)
                  \<and> keys (ds ! i) = [ascii ''word'', ascii ''start'', ascii ''end'']
                  \<and> subscript (ds ! i) (ascii ''word'')
                      = Inr (field_or (ws ! i) (ascii ''word'') (JStr []))
                  \<and> subscript (ds ! i) (ascii ''start'')
                      = Inr (field_or (ws ! i) (ascii ''start'') (JInt 0))
                  \<and> subscript (ds ! i) (ascii ''end'')
                      = Inr (field_or (ws ! i) (ascii ''end'') (JInt 0)))"
    by (intro exI[of _ "map spec_word ws"]) (simp add: n)
qed


theorem words_entries_normalized_witness:
  "normalize_segment (JObj [(ascii ''words'', JArr [JObj [(ascii ''word'', JStr (ascii ''hi''))], JObj []])])
     = Inr (JObj [(ascii ''start'', JInt 0), (ascii ''end'', JInt 0), (ascii ''text'', JStr []),
                  (ascii ''words'',
                     JArr [JObj [(ascii ''word'', JStr (ascii ''hi'')), (ascii ''start'', JInt 0),
                                 (ascii ''end'', JInt 0)],
                           JObj [(ascii ''word'', JStr []), (ascii ''start'', JInt 0),
                                 (ascii ''end'', JInt 0)]])])
   \<and> (\<exists>ds. length ds = 2 \<and> normalize_word (JObj []) = Inr (ds ! 1)
           \<and> subscript (ds ! 1) (ascii ''word'') = Inr (JStr []))
   \<and> (\<exists>n. normalize_segment (JObj []) = Inr n)"
proof -
  let ?ws = "[JObj [(ascii ''word'', JStr (ascii ''hi''))], JObj []]"
  let ?seg = "JObj [(ascii ''words'', JArr ?ws)]"
  let ?n = "JObj [(ascii ''start'', JInt 0), (ascii ''end'', JInt 0), (ascii ''text'', JStr []),
                  (ascii ''words'',
                     JArr [JObj [(ascii ''word'', JStr (ascii ''hi'')), (ascii ''start'', JInt 0),
                                 (ascii ''end'', JInt 0)],
                           JObj [(ascii ''word'', JStr []), (ascii ''start'', JInt 0),
                                 (ascii ''end'', JInt 0)]])]"
  have a: "normalize_segment ?seg = Inr ?n"
    by (simp add: normalize_segment_def normalize_word_def strip_def is_space_def ascii_def)
  have b: "subscript ?seg (ascii ''words'') = Inr (JArr ?ws)" by simp
  have c: "schema_segment (JObj [])" by (simp add: schema_segment_def optional_def)
  note t = words_entries_normalized[of "[]" ?seg ?n ?ws]
  note u = words_entries_normalized[of "[]" "JObj []" ?n ?ws]
  from t a b obtain ds where ds: "length ds = length ?ws"
    "\<forall>i<length ?ws. normalize_word (?ws ! i) = Inr (ds ! i)
        \<and> subscript (ds ! i) (ascii ''word'') = Inr (field_or (?ws ! i) (ascii ''word'') (JStr []))"
    by blast
  have "(1::nat) < length ?ws" by simp
  with ds(2) have "normalize_word (?ws ! 1) = Inr (ds ! 1)
     \<and> subscript (ds ! 1) (ascii ''word'') = Inr (field_or (?ws ! 1) (ascii ''word'') (JStr []))"
    by blast
  then have "normalize_word (JObj []) = Inr (ds ! 1)
     \<and> subscript (ds ! 1) (ascii ''word'') = Inr (JStr [])"
    by (simp add: field_or_def)
  with ds(1) have d: "\<exists>ds. length ds = 2 \<and> normalize_word (JObj []) = Inr (ds ! 1)
           \<and> subscript (ds ! 1) (ascii ''word'') = Inr (JStr [])"
    by (intro exI[of _ ds]) simp
  from u c have e: "\<exists>n. normalize_segment (JObj []) = Inr n" by blast
  from a d e show ?thesis by blast
qed

text \<open>
  C7. The segments of the normalised transcript are, in order and in number, the
  normalised segments of the response: the \<open>i\<close>-th comes from the \<open>i\<close>-th.
\<close>

theorem segments_order_preserved:
  assumes "normalize audio_name r = Inr t"
  shows "\<exists>ns. subscript t (ascii ''segments'') = Inr (JArr ns)
           \<and> length ns = length (response_segments r)
           \<and> (\<forall>i<length ns. normalize_segment (response_segments r ! i) = Inr (ns ! i))
           \<and> (\<forall>segs. subscript r (ascii ''segments'') = Inr (JArr segs) \<longrightarrow>
                  response_segments r = segs)"
proof -
  from normalize_Inr[OF assms] obtain xs ns where
    xs: "bind_err (dict_get r (ascii ''segments'') (JArr [])) py_iter = Inr xs"
    and ns: "normalize_segments xs [] = Inr ns"
    and t: "t = JObj [(ascii ''audio_file'', JStr audio_name),
                       (ascii ''language'', field_or r (ascii ''language'') (JStr (ascii ''en''))),
                       (ascii ''duration'', field_or r (ascii ''duration'') (JInt 0)),
                       (ascii ''segments'', JArr ns)]"
    by blast
  from xs have rs: "response_segments r = xs" by (simp add: response_segments_def)
  from normalize_segments_Inr[OF ns] have
    "length ns = length xs" "\<forall>i<length xs. normalize_segment (xs ! i) = Inr (ns ! i)"
    by auto
  moreover have "subscript t (ascii ''segments'') = Inr (JArr ns)"
    by (simp add: t ascii_def)
  ultimately show ?thesis using rs response_segments_list by auto
qed

lemma format_timestamp_30: "format_timestamp (JFloat (Finite 30)) = Inr (ascii ''0m30s'')"
  by (simp add: format_timestamp_def trunc_def str_int_def format_02d_def zfill_def digits.simps ascii_def)

lemma scenario_normalize:
  "normalize (ascii ''talk.wav'') scenario_response = Inr scenario_transcript"
  unfolding scenario_response_def scenario_transcript_def
  by (simp add: normalize_def normalize_segment_def strip_def is_space_def format_timestamp_30
      ascii_def)

theorem segments_order_preserved_witness:
  "normalize (ascii ''talk.wav'') scenario_response = Inr scenario_transcript
   \<and> (\<exists>ns. subscript scenario_transcript (ascii ''segments'') = Inr (JArr ns) \<and> length ns = 2
         \<and> normalize_segment
              (JObj [(ascii ''start'', JFloat (Finite 15)), (ascii ''end'', JFloat (Finite 30)),
                     (ascii ''text'', JStr (ascii '' world''))]) = Inr (ns ! 1))"
proof -
  let ?segs = "[JObj [(ascii ''start'', JFloat (Finite 0)), (ascii ''end'', JFloat (Finite 15)),
                      (ascii ''text'', JStr (ascii '' hello''))],
                JObj [(ascii ''start'', JFloat (Finite 15)), (ascii ''end'', JFloat (Finite 30)),
                      (ascii ''text'', JStr (ascii '' world''))]]"
  have s: "subscript scenario_response (ascii ''segments'') = Inr (JArr ?segs)"
    by (simp add: scenario_response_def ascii_def)
  from segments_order_preserved[OF scenario_normalize] obtain ns where
    ns: "subscript scenario_transcript (ascii ''segments'') = Inr (JArr ns)"
      "length ns = length (response_segments scenario_response)"
      "\<forall>i<length ns. normalize_segment (response_segments scenario_response ! i) = Inr (ns ! i)"
      "\<forall>segs. subscript scenario_response (ascii ''segments'') = Inr (JArr segs) \<longrightarrow>
                  response_segments scenario_response = segs"
    by blast
  from ns(4) s have r: "response_segments scenario_response = ?segs" by blast
  from ns(2) have l: "length ns = 2" by (simp add: r)
  then have "(1::nat) < length ns" by simp
  with ns(3) have "normalize_segment (response_segments scenario_response ! 1) = Inr (ns ! 1)"
    by blast
  then have "normalize_segment
              (JObj [(ascii ''start'', JFloat (Finite 15)), (ascii ''end'', JFloat (Finite 30)),
                     (ascii ''text'', JStr (ascii '' world''))]) = Inr (ns ! 1)"
    by (simp add: r)
  with ns(1) l scenario_normalize show ?thesis by blast
qed

text \<open>
  C5. On a 200 response that follows the schema, whichever optional fields are absent,
  \<open>transcribe\<close> returns the transcript of the specification: a missing \<open>language\<close>
  is \<open>en\<close>, a missing \<open>duration\<close> is 0, a missing \<open>segments\<close> is no segment, a
  segment's missing \<open>start\<close> or \<open>end\<close> is 0, its missing \<open>text\<close> is the empty string,
  and a text that is present is trimmed of the white space at both ends, and of nothing
  else.
\<close>

theorem normalizer_defaults:
  assumes "schema_response r"
    and "post (request_timeout st_size) = Response 200 body (Inr r)"
  shows "\<exists>t ns. transcribe audio_name (Some st_size) post = Inr t
           \<and> normalize audio_name r = Inr t
           \<and> t = spec_transcript audio_name r
           \<and> (\<not> has_field r (ascii ''language'') \<longrightarrow>
                subscript t (ascii ''language'') = Inr (JStr (ascii ''en'')))
           \<and> (\<not> has_field r (ascii ''duration'') \<longrightarrow>
                subscript t (ascii ''duration'') = Inr (JInt 0))
           \<and> (\<not> has_field r (ascii ''segments'') \<longrightarrow> ns = [])
           \<and> subscript t (ascii ''segments'') = Inr (JArr ns)
           \<and> length ns = length (response_segments r)
           \<and> (\<forall>i<length ns.
                 normalize_segment (response_segments r ! i) = Inr (ns ! i)
               \<and> (\<not> has_field (response_segments r ! i) (ascii ''start'') \<longrightarrow>
                    subscript (ns ! i) (ascii ''start'') = Inr (JInt 0))
               \<and> (\<not> has_field (response_segments r ! i) (ascii ''end'') \<longrightarrow>
                    subscript (ns ! i) (ascii ''end'') = Inr (JInt 0))
               \<and> (\<not> has_field (response_segments r ! i) (ascii ''text'') \<longrightarrow>
                    subscript (ns ! i) (ascii ''text'') = Inr (JStr []))
               \<and> (\<forall>s. subscript (response_segments r ! i) (ascii ''text'') = Inr (JStr s) \<longrightarrow>
                    subscript (ns ! i) (ascii ''text'') = Inr (JStr (strip s))
                    \<and> (\<exists>a b. s = a @ strip s @ b \<and> list_all is_space a \<and> list_all is_space b)
                    \<and> (strip s \<noteq> [] \<longrightarrow>
                          \<not> is_space (hd (strip s)) \<and> \<not> is_space (last (strip s)))))"
proof -
  define t where "t = spec_transcript audio_name r"
  define xs where "xs = response_segments r"
  define ns where "ns = map spec_segment xs"
  have n: "normalize audio_name r = Inr t"
    unfolding t_def by (rule normalize_schema[OF assms(1)])
  have tr: "transcribe audio_name (Some st_size) post = Inr t"
    using n assms(2) by (simp add: transcribe_def)
  from response_segments_schema[OF assms(1)] have
    xs: "xs = elems (field_or r (ascii ''segments'') (JArr []))"
    and all: "list_all schema_segment xs"
    unfolding xs_def by blast+
  have sg: "subscript t (ascii ''segments'') = Inr (JArr ns)"
    by (simp add: t_def ns_def xs subscript_spec_transcript)
  have lang: "\<not> has_field r (ascii ''language'') \<longrightarrow>
                subscript t (ascii ''language'') = Inr (JStr (ascii ''en''))"
    by (simp add: t_def subscript_spec_transcript field_or_absent)
  have dur: "\<not> has_field r (ascii ''duration'') \<longrightarrow>
                subscript t (ascii ''duration'') = Inr (JInt 0)"
    by (simp add: t_def subscript_spec_transcript field_or_absent)
  have nos: "\<not> has_field r (ascii ''segments'') \<longrightarrow> ns = []"
    by (simp add: ns_def xs field_or_absent elems_def)
  have each: "\<forall>i<length ns.
                 normalize_segment (xs ! i) = Inr (ns ! i)
               \<and> (\<not> has_field (xs ! i) (ascii ''start'') \<longrightarrow>
                    subscript (ns ! i) (ascii ''start'') = Inr (JInt 0))
               \<and> (\<not> has_field (xs ! i) (ascii ''end'') \<longrightarrow>
                    subscript (ns ! i) (ascii ''end'') = Inr (JInt 0))
               \<and> (\<not> has_field (xs ! i) (ascii ''text'') \<longrightarrow>
                    subscript (ns ! i) (ascii ''text'') = Inr (JStr []))
               \<and> (\<forall>s. subscript (xs ! i) (ascii ''text'') = Inr (JStr s) \<longrightarrow>
                    subscript (ns ! i) (ascii ''text'') = Inr (JStr (strip s))
                    \<and> (\<exists>a b. s = a @ strip s @ b \<and> list_all is_space a \<and> list_all is_space b)
                    \<and> (strip s \<noteq> [] \<longrightarrow>
                          \<not> is_space (hd (strip s)) \<and> \<not> is_space (last (strip s))))"
  proof (intro allI impI)
    fix i assume "i < length ns"
    then have i: "i < length xs" by (simp add: ns_def)
    with all have sc: "schema_segment (xs ! i)" by (simp add: list_all_length)
    have ni: "ns ! i = spec_segment (xs ! i)" using i by (simp add: ns_def)
    have 1: "normalize_segment (xs ! i) = Inr (ns ! i)"
      unfolding ni by (rule normalize_segment_schema[OF sc])
    have 2: "\<not> has_field (xs ! i) (ascii ''start'') \<longrightarrow>
                    subscript (ns ! i) (ascii ''start'') = Inr (JInt 0)"
      by (simp add: ni subscript_spec_segment field_or_absent)
    have 3: "\<not> has_field (xs ! i) (ascii ''end'') \<longrightarrow>
                    subscript (ns ! i) (ascii ''end'') = Inr (JInt 0)"
      by (simp add: ni subscript_spec_segment field_or_absent)
    have 4: "\<not> has_field (xs ! i) (ascii ''text'') \<longrightarrow>
                    subscript (ns ! i) (ascii ''text'') = Inr (JStr [])"
      by (simp add: ni subscript_spec_segment field_or_absent str_of_def strip_def)
    have 5: "\<forall>s. subscript (xs ! i) (ascii ''text'') = Inr (JStr s) \<longrightarrow>
                    subscript (ns ! i) (ascii ''text'') = Inr (JStr (strip s))
                    \<and> (\<exists>a b. s = a @ strip s @ b \<and> list_all is_space a \<and> list_all is_space b)
                    \<and> (strip s \<noteq> [] \<longrightarrow>
                          \<not> is_space (hd (strip s)) \<and> \<not> is_space (last (strip s)))"
      using strip_decompose strip_ends
      by (simp add: ni subscript_spec_segment field_or_present str_of_def)
    from 1 2 3 4 5 show "normalize_segment (xs ! i) = Inr (ns ! i)
               \<and> (\<not> has_field (xs ! i) (ascii ''start'') \<longrightarrow>
                    subscript (ns ! i) (ascii ''start'') = Inr (JInt 0))
               \<and> (\<not> has_field (xs ! i) (ascii ''end'') \<longrightarrow>
                    subscript (ns ! i) (ascii ''end'') = Inr (JInt 0))
               \<and> (\<not> has_field (xs ! i) (ascii ''text'') \<longrightarrow>
                    subscript (ns ! i) (ascii ''text'') = Inr (JStr []))
               \<and> (\<forall>s. subscript (xs ! i) (ascii ''text'') = Inr (JStr s) \<longrightarrow>
                    subscript (ns ! i) (ascii ''text'') = Inr (JStr (strip s))
                    \<and> (\<exists>a b. s = a @ strip s @ b \<and> list_all is_space a \<and> list_all is_space b)
                    \<and> (strip s \<noteq> [] \<longrightarrow>
                          \<not> is_space (hd (strip s)) \<and> \<not> is_space (last (strip s))))"
      by blast
  qed
  have len: "length ns = length xs" by (simp add: ns_def)
  show ?thesis
    apply (rule exI[of _ t], rule exI[of _ ns])
    using tr n lang dur nos sg len each unfolding xs_def[symmetric] t_def[symmetric]
    by blast
qed

theorem normalizer_defaults_witness:
  "schema_response (JObj [(ascii ''segments'', JArr [JObj []])])
   \<and> transcribe (ascii ''talk.wav'') (Some 1048576)
        (\<lambda>timeout. Response 200 [] (Inr (JObj [(ascii ''segments'', JArr [JObj []])])))
      = Inr (JObj [(ascii ''audio_file'', JStr (ascii ''talk.wav'')),
                   (ascii ''language'', JStr (ascii ''en'')),
                   (ascii ''duration'', JInt 0),
                   (ascii ''segments'',
                      JArr [JObj [(ascii ''start'', JInt 0), (ascii ''end'', JInt 0),
                                  (ascii ''text'', JStr [])]])])"
proof -
  let ?r = "JObj [(ascii ''segments'', JArr [JObj []])]"
  let ?post = "\<lambda>timeout::int. Response 200 [] (Inr ?r)"
  have a: "schema_response ?r"
    by (simp add: schema_response_def schema_segments_def schema_segment_def optional_def ascii_def)
  have b: "?post (request_timeout 1048576) = Response 200 [] (Inr ?r)" by simp
  from normalizer_defaults[of ?r ?post 1048576 "[]" "ascii ''talk.wav''", OF a b]
  have "transcribe (ascii ''talk.wav'') (Some 1048576) ?post
          = Inr (spec_transcript (ascii ''talk.wav'') ?r)"
    by blast
  moreover have "spec_transcript (ascii ''talk.wav'') ?r
      = JObj [(ascii ''audio_file'', JStr (ascii ''talk.wav'')),
                   (ascii ''language'', JStr (ascii ''en'')),
                   (ascii ''duration'', JInt 0),
                   (ascii ''segments'',
                      JArr [JObj [(ascii ''start'', JInt 0), (ascii ''end'', JInt 0),
                                  (ascii ''text'', JStr [])]])]"
    by (simp add: spec_transcript_def spec_segment_def field_or_def elems_def has_field_def
        str_of_def strip_def ascii_def)
  ultimately show ?thesis using a by simp
qed

subsection \<open>The console rendering\<close>

lemma subscript_present:
  "has_field obj k \<Longrightarrow> subscript obj k = Inr (field_or obj k d)"
proof (cases obj)
  case (JObj kvs)
  assume "has_field obj k"
  then show ?thesis unfolding JObj by (auto simp: has_field_map_of field_or_def)
qed (simp_all add: has_field_def)

lemma timestamp_of_number:
  "is_number x \<Longrightarrow> format_timestamp x = Inr (timestamp_of x)"
  using format_timestamp_number[of x] by (auto simp: timestamp_of_def)

lemma py_str_str: "is_str x \<Longrightarrow> py_str x = Inr (str_of x)"
  by (cases x) (simp_all add: is_str_def str_of_def)

lemma segment_line_valid:
  assumes "valid_segment s"
  shows "segment_line s = Inr (spec_line s)"
  using assms
  by (simp add: valid_segment_def segment_line_def spec_line_def
      subscript_present[where d = JNull] timestamp_of_number py_str_str)

lemma print_segments_valid:
  "list_all valid_segment segs \<Longrightarrow> print_segments segs out = (out @ map spec_line segs, None)"
  by (induction segs arbitrary: out) (simp_all add: segment_line_valid)

lemma print_transcript_valid:
  assumes "valid_transcript t"
  shows "\<exists>segs.
           subscript t (ascii ''segments'') = Inr (JArr segs) \<and> list_all valid_segment segs
         \<and> print_transcript t
             = ([10 # rule60, ascii ''TRANSCRIPT'',
                 ascii ''Duration: '' @ timestamp_of (field_or t (ascii ''duration'') (JInt 0))
                   @ ascii ''  |  Language: ''
                   @ str_of (field_or t (ascii ''language'') (JStr (ascii ''unknown''))),
                 ascii ''Segments: '' @ str_int (int (length segs)), rule60 @ [10]]
                @ map spec_line segs @ [10 # rule60], None)"
proof -
  from assms obtain kvs where t: "t = JObj kvs"
    by (cases t) (simp_all add: valid_transcript_def is_obj_def)
  from assms obtain segs where f: "field_or t (ascii ''segments'') JNull = JArr segs"
    and all: "list_all valid_segment segs"
    by (auto simp: valid_transcript_def split: json.splits)
  from assms have hs: "has_field t (ascii ''segments'')" by (simp add: valid_transcript_def)
  have sg: "subscript t (ascii ''segments'') = Inr (JArr segs)"
    using subscript_present[OF hs, of JNull] f by simp
  from assms have d: "is_number (field_or t (ascii ''duration'') (JInt 0))"
    and l: "is_str (field_or t (ascii ''language'') (JStr []))"
    by (simp_all add: valid_transcript_def)
  have l': "is_str (field_or t (ascii ''language'') (JStr (ascii ''unknown'')))"
    using l by (auto simp: t field_or_def is_str_def split: option.splits)
  have dg: "dict_get t (ascii ''duration'') (JInt 0) = Inr (field_or t (ascii ''duration'') (JInt 0))"
    "dict_get t (ascii ''language'') (JStr (ascii ''unknown''))
       = Inr (field_or t (ascii ''language'') (JStr (ascii ''unknown'')))"
    unfolding t by (rule dict_get_obj)+
  have "print_transcript t
             = ([10 # rule60, ascii ''TRANSCRIPT'',
                 ascii ''Duration: '' @ timestamp_of (field_or t (ascii ''duration'') (JInt 0))
                   @ ascii ''  |  Language: ''
                   @ str_of (field_or t (ascii ''language'') (JStr (ascii ''unknown''))),
                 ascii ''Segments: '' @ str_int (int (length segs)), rule60 @ [10]]
                @ map spec_line segs @ [10 # rule60], None)"
    unfolding print_transcript_def dg
    by (simp add: timestamp_of_number[OF d] py_str_str[OF l'] sg print_segments_valid[OF all])
  with sg all show ?thesis by blast
qed

text \<open>
  C8. For a transcript as the data model has it, \<open>print_transcript\<close> ends without an
  exception and prints the five texts of the banner, then one text per segment, in the
  order of the segments, each \<open>[start -> end]  text\<close> with \<open>start\<close> and \<open>end\<close> as the
  timestamp formatter renders them, then the closing rule. The two segments of the
  scenario give \<open>[0m00s -> 0m15s]  hello\<close> and \<open>[0m15s -> 0m30s]  world\<close>, in that
  order.
\<close>

theorem print_transcript_lines:
  assumes "valid_transcript t"
  shows "\<exists>banner segs.
           subscript t (ascii ''segments'') = Inr (JArr segs)
         \<and> length banner = 5
         \<and> print_transcript t = (banner @ map spec_line segs @ [10 # rule60], None)
         \<and> (\<forall>i<length segs.
               format_timestamp (field_or (segs ! i) (ascii ''start'') JNull)
                 = Inr (timestamp_of (field_or (segs ! i) (ascii ''start'') JNull))
             \<and> format_timestamp (field_or (segs ! i) (ascii ''end'') JNull)
                 = Inr (timestamp_of (field_or (segs ! i) (ascii ''end'') JNull))
             \<and> fst (print_transcript t) ! (5 + i)
                 = ascii ''['' @ timestamp_of (field_or (segs ! i) (ascii ''start'') JNull)
                   @ ascii '' -> '' @ timestamp_of (field_or (segs ! i) (ascii ''end'') JNull)
                   @ ascii '']  '' @ str_of (field_or (segs ! i) (ascii ''text'') JNull))"
proof -
  from print_transcript_valid[OF assms] obtain segs where
    sg: "subscript t (ascii ''segments'') = Inr (JArr segs)"
    and all: "list_all valid_segment segs"
    and p0: "print_transcript t
             = ([10 # rule60, ascii ''TRANSCRIPT'',
                 ascii ''Duration: '' @ timestamp_of (field_or t (ascii ''duration'') (JInt 0))
                   @ ascii ''  |  Language: ''
                   @ str_of (field_or t (ascii ''language'') (JStr (ascii ''unknown''))),
                 ascii ''Segments: '' @ str_int (int (length segs)), rule60 @ [10]]
                @ map spec_line segs @ [10 # rule60], None)"
    by blast
  define banner where "banner =
    [10 # rule60, ascii ''TRANSCRIPT'',
     ascii ''Duration: '' @ timestamp_of (field_or t (ascii ''duration'') (JInt 0))
       @ ascii ''  |  Language: '' @ str_of (field_or t (ascii ''language'') (JStr (ascii ''unknown''))),
     ascii ''Segments: '' @ str_int (int (length segs)), rule60 @ [10]]"
  have p: "print_transcript t = (banner @ map spec_line segs @ [10 # rule60], None)"
    unfolding p0 banner_def by simp
  have lb: "length banner = 5" by (simp add: banner_def)
  have each: "\<forall>i<length segs.
               format_timestamp (field_or (segs ! i) (ascii ''start'') JNull)
                 = Inr (timestamp_of (field_or (segs ! i) (ascii ''start'') JNull))
             \<and> format_timestamp (field_or (segs ! i) (ascii ''end'') JNull)
                 = Inr (timestamp_of (field_or (segs ! i) (ascii ''end'') JNull))
             \<and> fst (print_transcript t) ! (5 + i)
                 = ascii ''['' @ timestamp_of (field_or (segs ! i) (ascii ''start'') JNull)
                   @ ascii '' -> '' @ timestamp_of (field_or (segs ! i) (ascii ''end'') JNull)
                   @ ascii '']  '' @ str_of (field_or (segs ! i) (ascii ''text'') JNull)"
  proof (intro allI impI)
    fix i assume i: "i < length segs"
    with all have v: "valid_segment (segs ! i)" by (simp add: list_all_length)
    have "fst (print_transcript t) ! (5 + i) = spec_line (segs ! i)"
      using i lb by (simp add: p nth_append)
    with v show "format_timestamp (field_or (segs ! i) (ascii ''start'') JNull)
                 = Inr (timestamp_of (field_or (segs ! i) (ascii ''start'') JNull))
             \<and> format_timestamp (field_or (segs ! i) (ascii ''end'') JNull)
                 = Inr (timestamp_of (field_or (segs ! i) (ascii ''end'') JNull))
             \<and> fst (print_transcript t) ! (5 + i)
                 = ascii ''['' @ timestamp_of (field_or (segs ! i) (ascii ''start'') JNull)
                   @ ascii '' -> '' @ timestamp_of (field_or (segs ! i) (ascii ''end'') JNull)
                   @ ascii '']  '' @ str_of (field_or (segs ! i) (ascii ''text'') JNull)"
      by (simp add: valid_segment_def timestamp_of_number spec_line_def)
  qed
  from sg lb p each show ?thesis by blast
qed

lemma timestamp_of_scenario:
  "timestamp_of (JFloat (Finite 0)) = ascii ''0m00s''"
  "timestamp_of (JFloat (Finite 15)) = ascii ''0m15s''"
  "timestamp_of (JFloat (Finite 30)) = ascii ''0m30s''"
  by (simp_all add: timestamp_of_def format_timestamp_def trunc_def str_int_def format_02d_def
      zfill_def digits.simps ascii_def)

lemma scenario_transcript_valid: "valid_transcript scenario_transcript"
  by (simp add: valid_transcript_def scenario_transcript_def valid_segment_def is_obj_def
      is_number_def is_str_def has_field_def field_or_def ascii_def)

theorem print_transcript_lines_witness:
  "valid_transcript scenario_transcript
   \<and> (\<exists>banner. length banner = 5
         \<and> print_transcript scenario_transcript
             = (banner @ [ascii ''[0m00s -> 0m15s]  hello'', ascii ''[0m15s -> 0m30s]  world'',
                          10 # rule60], None))"
proof -
  let ?segs = "[JObj [(ascii ''start'', JFloat (Finite 0)), (ascii ''end'', JFloat (Finite 15)),
                      (ascii ''text'', JStr (ascii ''hello''))],
                JObj [(ascii ''start'', JFloat (Finite 15)), (ascii ''end'', JFloat (Finite 30)),
                      (ascii ''text'', JStr (ascii ''world''))]]"
  note v = scenario_transcript_valid
  have s: "subscript scenario_transcript (ascii ''segments'') = Inr (JArr ?segs)"
    by (simp add: scenario_transcript_def ascii_def)
  have m: "map spec_line ?segs
      = [ascii ''[0m00s -> 0m15s]  hello'', ascii ''[0m15s -> 0m30s]  world'']"
    by (simp add: spec_line_def field_or_def str_of_def timestamp_of_scenario) (simp add: ascii_def)
  from print_transcript_lines[OF v] obtain banner segs where
    b: "subscript scenario_transcript (ascii ''segments'') = Inr (JArr segs)"
      "length banner = 5"
      "print_transcript scenario_transcript = (banner @ map spec_line segs @ [10 # rule60], None)"
    by blast
  from b(1) s have "segs = ?segs" by simp
  with b(3) m have "print_transcript scenario_transcript
             = (banner @ [ascii ''[0m00s -> 0m15s]  hello'', ascii ''[0m15s -> 0m30s]  world'',
                          10 # rule60], None)"
    by simp
  with v b(2) show ?thesis by blast
qed

subsection \<open>The temporary directory of a run\<close>

text \<open>The body of the \<open>try\<close> changes nothing but the output file.\<close>

lemma transcribe_and_save_fs:
  "\<exists>body. transcribe_and_save w a out fs = (body, fs)
     \<or> (\<exists>t. out \<notin> set (dirs fs) \<and> parent out \<in> set (dirs fs)
           \<and> transcribe_and_save w a out fs = (body, write_file out (Json t) fs))"
  unfolding transcribe_and_save_def open_w_def
  by (auto split: sum.splits option.splits content.splits prod.splits if_splits)

lemma paths_write_file:
  "fst ` set (files (write_file p c fs)) = insert p (fst ` set (files fs))"
  "dirs (write_file p c fs) = dirs fs"
  by (auto simp: write_file_def)

lemma cleanup_removes:
  assumes "\<not> keep_audio w" and "a \<in> set (map fst (files fs))" and "a \<notin> set (dirs fs)"
    and "parent a \<in> set (dirs fs)"
    and "\<forall>q \<in> set (map fst (files fs) @ dirs fs). parent q = parent a \<longrightarrow> q = a \<or> q = parent a"
  shows "\<exists>fs'. cleanup w a fs = (Inr (), fs')
           \<and> files fs' = filter (\<lambda>f. fst f \<noteq> a) (files fs)
           \<and> dirs fs' = filter (\<lambda>d. d \<noteq> parent a) (dirs fs)"
proof -
  define fs1 where "fs1 = fs\<lparr>files := filter (\<lambda>f. fst f \<noteq> a) (files fs)\<rparr>"
  have u: "unlink a fs = (Inr (), fs1)"
    using assms(2) by (simp add: unlink_def fs1_def)
  have d1: "dirs fs1 = dirs fs" by (simp add: fs1_def)
  have f1: "files fs1 = filter (\<lambda>f. fst f \<noteq> a) (files fs)" by (simp add: fs1_def)
  have none: "\<not> (\<exists>q \<in> set (map fst (files fs1) @ dirs fs1). q \<noteq> parent a \<and> parent q = parent a)"
    using assms(3,5) unfolding d1 f1 by auto
  have r: "rmdir (parent a) fs1 = (Inr (), fs1\<lparr>dirs := filter (\<lambda>d. d \<noteq> parent a) (dirs fs1)\<rparr>)"
    unfolding rmdir_def using none assms(4) d1 by simp
  have e: "exists a fs" using assms(2) by (simp add: exists_def)
  show ?thesis
    using assms(1) e u r by (simp add: cleanup_def d1 f1)
qed

text \<open>
  Once the transcoding has succeeded, a run without \<open>--keep-audio\<close> leaves neither the
  temporary directory nor the audio file behind, whatever the remote call and the
  writing of the transcript do.
\<close>

lemma main_removes_temp_after_extraction:
  assumes pre: "exists (video w) fs" "api_key w = Some k" "k \<noteq> []" "ffmpeg_found w"
    and keep: "\<not> keep_audio w"
    and ok: "ffmpeg_returncode w = 0" "ffmpeg_wrote w = Some n"
    and fresh: "\<forall>q \<in> set (map fst (files fs) @ dirs fs). q \<noteq> tmp_dir w \<and> parent q \<noteq> tmp_dir w"
    and out: "\<forall>p. output_arg w = Some p \<longrightarrow> parent p \<noteq> tmp_dir w"
  shows "\<not> exists (tmp_dir w) (snd (main w fs))
       \<and> \<not> exists (tmp_dir w @ [video_stem w @ ascii ''.wav'']) (snd (main w fs))
       \<and> dirs (snd (main w fs)) = dirs fs"
proof -
  define a where "a = tmp_dir w @ [video_stem w @ ascii ''.wav'']"
  define op where "op = (case output_arg w of Some p \<Rightarrow> p
                          | None \<Rightarrow> parent (video w) @ [video_stem w @ ascii ''_transcript.json''])"
  define fs0 where "fs0 = fs\<lparr>dirs := tmp_dir w # dirs fs\<rparr>"
  define fs1 where "fs1 = write_file a (Bytes n) fs0"
  have pa: "parent a = tmp_dir w" by (simp add: a_def parent_def)
  have fresh': "\<forall>q \<in> fst ` set (files fs) \<union> set (dirs fs). q \<noteq> tmp_dir w \<and> parent q \<noteq> tmp_dir w"
    using fresh by simp
  have a_new: "a \<notin> fst ` set (files fs)" "a \<notin> set (dirs fs)"
    using fresh' pa by blast+
  have a_tmp: "a \<noteq> tmp_dir w" by (simp add: a_def)
  have t_new: "tmp_dir w \<notin> set (dirs fs)" "tmp_dir w \<notin> fst ` set (files fs)"
    using fresh' by blast+
  have "video w \<in> fst ` set (files fs) \<union> set (dirs fs)"
    using pre(1) by (simp add: exists_def)
  with fresh' have vid: "parent (video w) \<noteq> tmp_dir w" by blast
  have pop: "parent op \<noteq> tmp_dir w"
  proof (cases "output_arg w")
    case None
    then have "parent op = parent (video w)" by (simp add: op_def parent_def)
    with vid show ?thesis by simp
  next
    case (Some p)
    with out show ?thesis by (simp add: op_def)
  qed
  then have opa: "op \<noteq> a" using pa by auto
  have ex: "extract_audio w a fs0 = (Inr (), fs1)"
    using ok by (simp add: extract_audio_def fs1_def write_file_def exists_def)
  have f1: "files fs1 = (a, Bytes n) # filter (\<lambda>f. fst f \<noteq> a) (files fs)"
    and d1: "dirs fs1 = tmp_dir w # dirs fs"
    by (simp_all add: fs1_def fs0_def write_file_def)
  from transcribe_and_save_fs[of w a op fs1] obtain body fs2 where
    b: "transcribe_and_save w a op fs1 = (body, fs2)"
    and f2: "fs2 = fs1 \<or> (\<exists>t. op \<notin> set (dirs fs1) \<and> fs2 = write_file op (Json t) fs1)"
    by blast
  have s1: "fst ` set (files fs1) = insert a (fst ` set (files fs))"
    unfolding fs1_def paths_write_file by (simp add: fs0_def)
  have d2: "dirs fs2 = tmp_dir w # dirs fs"
    using f2 d1 by (auto simp: paths_write_file)
  have s2: "fst ` set (files fs2) = insert a (fst ` set (files fs))
            \<or> op \<noteq> tmp_dir w
              \<and> fst ` set (files fs2) = insert op (insert a (fst ` set (files fs)))"
  proof -
    from f2 show ?thesis
    proof
      assume "fs2 = fs1"
      with s1 show ?thesis by simp
    next
      assume "\<exists>t. op \<notin> set (dirs fs1) \<and> fs2 = write_file op (Json t) fs1"
      then obtain t where o: "op \<notin> set (dirs fs1)" and "fs2 = write_file op (Json t) fs1"
        by blast
      then have "fst ` set (files fs2) = insert op (fst ` set (files fs1))"
        by (simp only: paths_write_file)
      moreover from o d1 have "op \<noteq> tmp_dir w" by auto
      ultimately show ?thesis using s1 by simp
    qed
  qed
  have set2: "fst ` set (files fs2) \<subseteq> insert op (insert a (fst ` set (files fs)))"
    using s2 by blast
  have a2: "a \<in> set (map fst (files fs2))"
    unfolding set_map using s2 by blast
  have only: "\<forall>q \<in> set (map fst (files fs2) @ dirs fs2). parent q = parent a \<longrightarrow> q = a \<or> q = parent a"
  proof (intro ballI impI)
    fix q assume q: "q \<in> set (map fst (files fs2) @ dirs fs2)" and p: "parent q = parent a"
    from q have "q \<in> fst ` set (files fs2) \<union> set (dirs fs2)" by simp
    with set2 d2 have "q = op \<or> q = a \<or> q = tmp_dir w \<or> q \<in> fst ` set (files fs) \<union> set (dirs fs)"
      by auto
    with p pa pop fresh' show "q = a \<or> q = parent a" by metis
  qed
  have a_nd: "a \<notin> set (dirs fs2)" using a_new a_tmp d2 by simp
  have p_d: "parent a \<in> set (dirs fs2)" using d2 pa by simp
  from cleanup_removes[OF keep a2 a_nd p_d only] obtain fs3 where
    c: "cleanup w a fs2 = (Inr (), fs3)"
    and f3: "files fs3 = filter (\<lambda>f. fst f \<noteq> a) (files fs2)"
    and d3: "dirs fs3 = filter (\<lambda>d. d \<noteq> parent a) (dirs fs2)"
    by blast
  have m: "snd (main w fs) = fs3"
    using pre keep ex b c
    by (simp add: main_def Let_def a_def[symmetric] op_def[symmetric] fs0_def[symmetric]
        try_finally_def split: sum.splits)
  have "filter (\<lambda>d. d \<noteq> tmp_dir w) (dirs fs) = dirs fs"
    using t_new(1) by (auto simp: filter_id_conv)
  then have r1: "dirs fs3 = dirs fs" using d3 d2 pa by simp
  have r2: "a \<notin> fst ` set (files fs3)" using f3 by auto
  have "tmp_dir w \<notin> fst ` set (files fs2)"
  proof
    assume i: "tmp_dir w \<in> fst ` set (files fs2)"
    from s2 show False
    proof
      assume "fst ` set (files fs2) = insert a (fst ` set (files fs))"
      with i have "tmp_dir w = a \<or> tmp_dir w \<in> fst ` set (files fs)" by simp
      with a_tmp t_new(2) show False by simp
    next
      assume "op \<noteq> tmp_dir w
              \<and> fst ` set (files fs2) = insert op (insert a (fst ` set (files fs)))"
      with i have "op \<noteq> tmp_dir w"
        and "tmp_dir w = op \<or> tmp_dir w = a \<or> tmp_dir w \<in> fst ` set (files fs)" by simp_all
      with a_tmp t_new(2) show False by simp
    qed
  qed
  then have r3: "tmp_dir w \<notin> fst ` set (files fs3)"
    using f3 by auto
  have e1: "\<not> exists (tmp_dir w) fs3"
    unfolding exists_def set_map using r1 r3 t_new(1) by simp
  have e2: "\<not> exists a fs3"
    unfolding exists_def set_map using r1 r2 a_new(2) by simp
  from e1 e2 r1 show ?thesis
    unfolding m a_def by simp
qed

text \<open>
  When the transcoding fails, the exception leaves \<open>main\<close> before the \<open>try\<close> is
  entered: the temporary directory stays.
\<close>

lemma main_keeps_temp_on_transcode_failure:
  assumes "exists (video w) fs" "api_key w = Some k" "k \<noteq> []" "ffmpeg_found w"
    and "\<not> keep_audio w" and "ffmpeg_returncode w \<noteq> 0"
  shows "fst (main w fs) = Raised (FFmpegFailed (ffmpeg_stderr w))
       \<and> tmp_dir w \<in> set (dirs (snd (main w fs)))"
  using assms
  by (simp add: main_def Let_def extract_audio_def paths_write_file split: option.splits)

text \<open>
  C1. A run without \<open>--keep-audio\<close> whose transcoding fails ends with the exception
  \<open>FFmpeg failed\<close> and leaves the temporary directory it created, which did not exist
  before: the claim fails on this exit path.
\<close>

theorem temp_dir_survives_transcode_failure:
  "main failed_transcode_run scenario_fs
     = (Raised (FFmpegFailed (ascii ''Invalid data found when processing input'')),
        \<lparr>files = [([ascii ''home'', ascii ''talk.mp4''], Bytes 4000000)],
         dirs = [[ascii ''tmp'', ascii ''tmpk3''], [], [ascii ''home''], [ascii ''tmp'']]\<rparr>)
   \<and> \<not> keep_audio failed_transcode_run
   \<and> \<not> exists [ascii ''tmp'', ascii ''tmpk3''] scenario_fs
   \<and> exists [ascii ''tmp'', ascii ''tmpk3''] (snd (main failed_transcode_run scenario_fs))"
proof -
  have m: "main failed_transcode_run scenario_fs
     = (Raised (FFmpegFailed (ascii ''Invalid data found when processing input'')),
        \<lparr>files = [([ascii ''home'', ascii ''talk.mp4''], Bytes 4000000)],
         dirs = [[ascii ''tmp'', ascii ''tmpk3''], [], [ascii ''home''], [ascii ''tmp'']]\<rparr>)"
    by (simp add: main_def failed_transcode_run_def scenario_run_def scenario_fs_def exists_def
        extract_audio_def Let_def) (simp add: ascii_def)
  have k: "\<not> keep_audio failed_transcode_run"
    by (simp add: failed_transcode_run_def scenario_run_def)
  have b: "\<not> exists [ascii ''tmp'', ascii ''tmpk3''] scenario_fs"
    by (simp add: exists_def scenario_fs_def ascii_def)
  have a: "exists [ascii ''tmp'', ascii ''tmpk3''] (snd (main failed_transcode_run scenario_fs))"
    unfolding m by (simp add: exists_def)
  from m k b a show ?thesis by blast
qed

text \<open>The scenario itself, and the scenario with a failing remote call, leave nothing.\<close>

lemma scenario_run_leaves_nothing:
  "main scenario_run scenario_fs
     = (Exited 0,
        \<lparr>files = [([ascii ''home'', ascii ''talk_transcript.json''], Json scenario_transcript),
                  ([ascii ''home'', ascii ''talk.mp4''], Bytes 4000000)],
         dirs = [[], [ascii ''home''], [ascii ''tmp'']]\<rparr>)"
proof -
  have t: "transcribe (ascii ''talk.wav'') (Some 960044) (service scenario_run) = Inr scenario_transcript"
    by (simp add: transcribe_def scenario_run_def scenario_normalize)
  obtain out where p: "print_transcript scenario_transcript = (out, None)"
    using print_transcript_valid[OF scenario_transcript_valid] by blast
  have l: "last [ascii ''tmp'', ascii ''tmpk3'', ascii ''talk.wav''] = ascii ''talk.wav''" by simp
  have v: "video scenario_run = [ascii ''home'', ascii ''talk.mp4'']"
    "video_stem scenario_run = ascii ''talk''" "output_arg scenario_run = None"
    "\<not> keep_audio scenario_run" "api_key scenario_run = Some (ascii ''key'')"
    "ffmpeg_found scenario_run" "ffmpeg_returncode scenario_run = 0"
    "ffmpeg_wrote scenario_run = Some 960044" "tmp_dir scenario_run = [ascii ''tmp'', ascii ''tmpk3'']"
    by (simp_all add: scenario_run_def)
  have k: "ascii ''key'' \<noteq> []" by (simp add: ascii_def)
  have n1: "[ascii ''home'', ascii ''talk.mp4''] \<noteq> [ascii ''tmp'', ascii ''tmpk3'', ascii ''talk.wav'']"
    "[ascii ''home'', ascii ''talk_transcript.json''] \<noteq> [ascii ''tmp'', ascii ''tmpk3'', ascii ''talk.wav'']"
    "[ascii ''home'', ascii ''talk_transcript.json''] \<noteq> [ascii ''home'', ascii ''talk.mp4'']"
    "[ascii ''home'', ascii ''talk_transcript.json''] \<noteq> [ascii ''tmp'', ascii ''tmpk3'']"
    "[ascii ''tmp'', ascii ''tmpk3''] \<noteq> [ascii ''home'']"
    "[ascii ''tmp'', ascii ''tmpk3''] \<noteq> [ascii ''tmp'']"
    "[ascii ''home'', ascii ''talk_transcript.json''] \<noteq> [ascii ''home'']"
    "[ascii ''home'', ascii ''talk_transcript.json''] \<noteq> [ascii ''tmp'']"
    "ascii ''home'' \<noteq> ascii ''tmp''" "ascii ''talk.mp4'' \<noteq> ascii ''talk_transcript.json''"
    "ascii ''talk_transcript.json'' \<noteq> ascii ''talk.mp4''"
    by (simp_all add: ascii_def)
  have c: "ascii ''talk'' @ ascii ''.wav'' = ascii ''talk.wav''"
    "ascii ''talk'' @ ascii ''_transcript.json'' = ascii ''talk_transcript.json''"
    by (simp_all add: ascii_def)
  show ?thesis
    unfolding main_def v Let_def
    by (simp add: k scenario_fs_def exists_def extract_audio_def v write_file_def parent_def c
        try_finally_def transcribe_and_save_def t[unfolded c] l open_w_def p cleanup_def
        unlink_def rmdir_def n1)
qed

lemma remote_failure_leaves_nothing:
  "fst (main (scenario_run\<lparr>service := (\<lambda>timeout. Response 500 (ascii ''busy'') (Inl JSONDecodeError))\<rparr>)
          scenario_fs)
     = Raised (FireworksAPIError 500 (ascii ''busy''))
   \<and> \<not> exists [ascii ''tmp'', ascii ''tmpk3'']
         (snd (main (scenario_run\<lparr>service := (\<lambda>timeout. Response 500 (ascii ''busy'') (Inl JSONDecodeError))\<rparr>)
                 scenario_fs))
   \<and> \<not> exists [ascii ''tmp'', ascii ''tmpk3'', ascii ''talk.wav'']
         (snd (main (scenario_run\<lparr>service := (\<lambda>timeout. Response 500 (ascii ''busy'') (Inl JSONDecodeError))\<rparr>)
                 scenario_fs))"
proof -
  let ?w = "scenario_run\<lparr>service := (\<lambda>timeout. Response 500 (ascii ''busy'') (Inl JSONDecodeError))\<rparr>"
  have v: "video ?w = [ascii ''home'', ascii ''talk.mp4'']"
    "video_stem ?w = ascii ''talk''" "output_arg ?w = None"
    "\<not> keep_audio ?w" "api_key ?w = Some (ascii ''key'')"
    "ffmpeg_found ?w" "ffmpeg_returncode ?w = 0"
    "ffmpeg_wrote ?w = Some 960044" "tmp_dir ?w = [ascii ''tmp'', ascii ''tmpk3'']"
    by (simp_all add: scenario_run_def)
  have k: "ascii ''key'' \<noteq> []" by (simp add: ascii_def)
  have e: "exists (video ?w) scenario_fs" unfolding v by (simp add: exists_def scenario_fs_def)
  have fresh: "\<forall>q \<in> set (map fst (files scenario_fs) @ dirs scenario_fs).
                 q \<noteq> tmp_dir ?w \<and> parent q \<noteq> tmp_dir ?w"
    unfolding v by (simp add: scenario_fs_def parent_def ascii_def)
  have out: "\<forall>p. output_arg ?w = Some p \<longrightarrow> parent p \<noteq> tmp_dir ?w"
    unfolding v by simp
  from main_removes_temp_after_extraction[OF e v(5) k v(6) v(4) v(7) v(8) fresh out]
  have r: "\<not> exists [ascii ''tmp'', ascii ''tmpk3''] (snd (main ?w scenario_fs))"
    "\<not> exists [ascii ''tmp'', ascii ''tmpk3'', ascii ''talk.wav''] (snd (main ?w scenario_fs))"
    unfolding v by (simp_all add: ascii_def)
  have t: "\<And>n. transcribe (ascii ''talk.wav'') (Some n)
                  (\<lambda>timeout. Response 500 (ascii ''busy'') (Inl JSONDecodeError))
             = Inl (FireworksAPIError 500 (ascii ''busy''))"
    by (simp add: transcribe_def)
  have c: "ascii ''talk'' @ ascii ''.wav'' = ascii ''talk.wav''"
    by (simp add: ascii_def)
  have n1: "[ascii ''home'', ascii ''talk.mp4''] \<noteq> [ascii ''tmp'', ascii ''tmpk3'', ascii ''talk.wav'']"
    "[ascii ''tmp'', ascii ''tmpk3''] \<noteq> [ascii ''home'']"
    "[ascii ''tmp'', ascii ''tmpk3''] \<noteq> [ascii ''tmp'']"
    by (simp_all add: ascii_def)
  have "fst (main ?w scenario_fs) = Raised (FireworksAPIError 500 (ascii ''busy''))"
    unfolding main_def v Let_def
    by (simp add: k scenario_fs_def exists_def extract_audio_def v write_file_def parent_def c
        try_finally_def transcribe_and_save_def t cleanup_def unlink_def rmdir_def n1
        del: ext_inject surjective)
  with r show ?thesis by simp
qed

subsection \<open>The request timeout\<close>

lemma bitlen_rat_bounds:
  assumes "0 < a"
  shows "(2::rat) powi (bitlen a - 1) \<le> of_int a" "of_int a < (2::rat) powi bitlen a"
proof -
  from bitlen_bounds[OF assms] have lo: "2 ^ nat (bitlen a - 1) \<le> a" and hi: "a < 2 ^ nat (bitlen a)"
    by simp_all
  from assms have b1: "1 \<le> bitlen a"
    using bitlen_eq_zero_iff[of a] bitlen_nonneg[of a] by linarith
  have "(2::rat) powi (bitlen a - 1) = 2 ^ nat (bitlen a - 1)"
    using b1 by (simp add: power_int_def)
  also have "\<dots> = of_int (2 ^ nat (bitlen a - 1))" by simp
  also have "\<dots> \<le> of_int a" using lo by (simp only: of_int_le_iff)
  finally show "(2::rat) powi (bitlen a - 1) \<le> of_int a" .
  have "(of_int a :: rat) < of_int (2 ^ nat (bitlen a))" using hi by (simp only: of_int_less_iff)
  also have "\<dots> = 2 ^ nat (bitlen a)" by simp
  also have "\<dots> = (2::rat) powi bitlen a" using b1 by (simp add: power_int_def)
  finally show "of_int a < (2::rat) powi bitlen a" .
qed

lemma ilog2_bounds:
  assumes "0 < x"
  shows "2 powi ilog2 x \<le> x" and "x < 2 powi (ilog2 x + 1)"
proof -
  obtain a b where q: "quotient_of x = (a, b)" by (cases "quotient_of x")
  then have b: "0 < b" and x: "x = of_int a / of_int b"
    by (simp_all add: quotient_of_denom_pos quotient_of_div)
  from assms x b have a: "0 < a" by (simp add: zero_less_divide_iff)
  define d where "d = bitlen a - bitlen b"
  have il: "ilog2 x = (if 2 powi d \<le> x then d else d - 1)"
    by (simp add: ilog2_def q d_def Let_def)
  have bp: "(0::rat) < of_int b" using b by simp
  note A = bitlen_rat_bounds[OF a] and B = bitlen_rat_bounds[OF b]
  have lo: "2 powi (d - 1) \<le> x"
  proof -
    have "(2::rat) powi (d - 1) = 2 powi (bitlen a - 1) / 2 powi bitlen b"
      by (simp add: d_def power_int_diff[symmetric] algebra_simps)
    also have "\<dots> \<le> of_int a / 2 powi bitlen b"
      using A(1) by (simp add: divide_right_mono)
    also have "\<dots> \<le> of_int a / of_int b"
      using B(2) a bp by (intro divide_left_mono) (simp_all add: less_imp_le)
    finally show ?thesis by (simp add: x)
  qed
  have hi: "x < 2 powi (d + 1)"
  proof -
    have "x = of_int a / of_int b" by (rule x)
    also have "\<dots> < 2 powi bitlen a / of_int b"
      using A(2) bp by (simp add: divide_strict_right_mono)
    also have "\<dots> \<le> 2 powi bitlen a / 2 powi (bitlen b - 1)"
      using B(1) bp by (intro divide_left_mono) (simp_all add: mult_pos_pos)
    also have "\<dots> = 2 powi (d + 1)"
      by (simp add: d_def power_int_diff[symmetric] algebra_simps)
    finally show ?thesis .
  qed
  show "2 powi ilog2 x \<le> x" using lo by (simp add: il)
  show "x < 2 powi (ilog2 x + 1)" using hi by (auto simp: il not_le)
qed

lemma ilog2_unique:
  assumes "2 powi e \<le> x" "x < 2 powi (e + 1)"
  shows "ilog2 x = e"
proof -
  have "(0::rat) < 2 powi e" by simp
  then have x: "0 < x" using assms(1) by (rule less_le_trans)
  note I = ilog2_bounds[OF x]
  have "(2::rat) powi e < 2 powi (ilog2 x + 1)" using assms(1) I(2) by simp
  then have 1: "e < ilog2 x + 1"
    by (metis not_less power_int_increasing one_le_numeral)
  have "(2::rat) powi ilog2 x < 2 powi (e + 1)" using assms(2) I(1) by simp
  then have 2: "ilog2 x < e + 1"
    by (metis not_less power_int_increasing one_le_numeral)
  from 1 2 show ?thesis by simp
qed

lemma round_half_even_error: "\<bar>of_int (round_half_even y) - y\<bar> \<le> 1 / 2"
proof -
  have "of_int \<lfloor>y\<rfloor> \<le> y" "y < of_int \<lfloor>y\<rfloor> + 1" by linarith+
  then show ?thesis
    by (auto simp: round_half_even_def Let_def abs_le_iff)
qed

lemma fl_error:
  assumes "0 < x"
  shows "\<bar>fl x - x\<bar> \<le> x / 2 ^ 53"
proof -
  define q :: rat where "q = 2 powi (ilog2 x - 52)"
  have qp: "0 < q" by (simp add: q_def)
  have f: "fl x = of_int (round_half_even (x / q)) * q"
    using assms by (simp add: fl_def q_def Let_def)
  have "fl x - x = (of_int (round_half_even (x / q)) - x / q) * q"
    using qp by (simp add: f field_simps)
  then have "\<bar>fl x - x\<bar> = \<bar>of_int (round_half_even (x / q)) - x / q\<bar> * q"
    using qp by (simp add: abs_mult)
  also have "\<dots> \<le> 1 / 2 * q"
    using round_half_even_error[of "x / q"] qp by (intro mult_right_mono) simp_all
  also have "\<dots> = 2 powi ilog2 x / 2 ^ 53"
    by (simp add: q_def power_int_diff)
  also have "\<dots> \<le> x / 2 ^ 53"
    using ilog2_bounds(1)[OF assms] by (simp add: divide_right_mono)
  finally show ?thesis .
qed

lemma round_half_even_nearest:
  assumes "\<bar>y - of_int n\<bar> < 1 / 2"
  shows "round_half_even y = n"
proof -
  from assms have a: "of_int n - 1 / 2 < y" "y < of_int n + 1 / 2" by linarith+
  have "\<lfloor>y\<rfloor> = n \<or> \<lfloor>y\<rfloor> = n - 1"
  proof -
    have "of_int (n - 1) \<le> y" using a(1) by simp
    then have "n - 1 \<le> \<lfloor>y\<rfloor>" by (simp only: le_floor_iff)
    moreover have "y < of_int (n + 1)" using a(2) by simp
    then have "\<lfloor>y\<rfloor> < n + 1" by (simp only: floor_less_iff)
    ultimately show ?thesis by linarith
  qed
  then show ?thesis
  proof
    assume f: "\<lfloor>y\<rfloor> = n"
    with a(2) show ?thesis by (simp add: round_half_even_def Let_def)
  next
    assume f: "\<lfloor>y\<rfloor> = n - 1"
    with a(1) show ?thesis by (simp add: round_half_even_def Let_def)
  qed
qed

lemma fl_nearest:
  assumes "2 powi e \<le> x" "x < 2 powi (e + 1)" "\<bar>x / 2 powi (e - 52) - of_int n\<bar> < 1 / 2"
  shows "fl x = of_int n * 2 powi (e - 52)"
proof -
  have "(0::rat) < 2 powi e" by simp
  then have x: "0 < x" using assms(1) by (rule less_le_trans)
  have i: "ilog2 x = e" by (rule ilog2_unique[OF assms(1,2)])
  have "\<bar>x\<bar> = x" using x by simp
  then show ?thesis
    using x round_half_even_nearest[OF assms(3)] by (simp add: fl_def i Let_def)
qed

lemma fl_100: "fl 100 = 100"
  using fl_nearest[of 6 100 7036874417766400] by simp
lemma fl_10: "fl 10 = 10"
  using fl_nearest[of 3 10 5629499534213120] by simp
lemma fl_600: "fl 600 = 600"
  using fl_nearest[of 9 600 5277655813324800] by simp
lemma fl_1: "fl 1 = 1"
  using fl_nearest[of 0 1 4503599627370496] by simp
lemma fl_tenth: "fl (1 / 10) = 3602879701896397 / 36028797018963968"
  using fl_nearest[of "-4" "1 / 10" 7205759403792794] by simp
lemma fl_6: "fl (3602879701896397 / 36028797018963968 * 60) = 6"
  using fl_nearest[of 2 "3602879701896397 / 36028797018963968 * 60" 6755399441055744] by simp
lemma fl_41_4: "fl (41 / 4) = 41 / 4"
  using fl_nearest[of 3 "41 / 4" 5770237022568448] by simp
lemma fl_41_40: "fl (41 / 4 / 10) = 2308094809027379 / 2251799813685248"
  using fl_nearest[of 0 "41 / 4 / 10" 4616189618054758] by simp
lemma fl_61: "fl (2308094809027379 / 2251799813685248 * 60) = 8655355533852671 / 140737488355328"
  using fl_nearest[of 5 "2308094809027379 / 2251799813685248 * 60" 8655355533852671] by simp
lemma fl_41: "fl 41 = 41"
  using fl_nearest[of 5 41 5770237022568448] by simp
lemma fl_41_10: "fl (41 / 10) = 2308094809027379 / 562949953421312"
  using fl_nearest[of 2 "41 / 10" 4616189618054758] by simp
lemma fl_245: "fl (2308094809027379 / 562949953421312 * 60) = 8655355533852671 / 35184372088832"
  using fl_nearest[of 7 "2308094809027379 / 562949953421312 * 60" 8655355533852671] by simp

lemma trunc_between: "of_int n \<le> x \<Longrightarrow> x < of_int n + 1 \<Longrightarrow> 0 \<le> n \<Longrightarrow> trunc x = n"
proof -
  assume a: "of_int n \<le> x" "x < of_int n + 1" "0 \<le> n"
  then have "\<lfloor>x\<rfloor> = n" by (simp add: floor_unique)
  moreover from a have "0 \<le> x" by (metis of_int_0_le_iff order_trans)
  ultimately show ?thesis by (simp add: trunc_def)
qed

lemma request_timeout_100MB: "request_timeout 104857600 = 660"
proof -
  have "trunc (600::rat) = 600" by (rule trunc_between) simp_all
  then show ?thesis by (simp add: request_timeout_def Let_def fl_100 fl_10 fl_600)
qed

lemma request_timeout_1MB: "request_timeout 1048576 = 120"
proof -
  have t: "trunc (6::rat) = 6" by (rule trunc_between) simp_all
  have "(of_nat 1048576 :: rat) / (1024 * 1024) = 1" by simp
  then have s: "fl (of_nat 1048576 / (1024 * 1024)) = 1" by (simp only: fl_1)
  show ?thesis unfolding request_timeout_def Let_def s fl_tenth fl_6 t by simp
qed

lemma request_timeout_10_25MB: "request_timeout 10747904 = 121"
proof -
  have t: "trunc (8655355533852671 / 140737488355328 :: rat) = 61"
    by (rule trunc_between) simp_all
  have "(of_nat 10747904 :: rat) / (1024 * 1024) = 41 / 4" by simp
  then have s: "fl (of_nat 10747904 / (1024 * 1024)) = 41 / 4" by (simp only: fl_41_4)
  show ?thesis unfolding request_timeout_def Let_def s fl_41_40 fl_61 t by simp
qed

lemma request_timeout_41MB: "request_timeout 42991616 = 305"
proof -
  have t: "trunc (8655355533852671 / 35184372088832 :: rat) = 245"
    by (rule trunc_between) simp_all
  have "(of_nat 42991616 :: rat) / (1024 * 1024) = 41" by simp
  then have s: "fl (of_nat 42991616 / (1024 * 1024)) = 41" by (simp only: fl_41)
  show ?thesis unfolding request_timeout_def Let_def s fl_41_10 fl_245 t by simp
qed

text \<open>One rounding keeps a value within the factors \<open>1 - 2\<^sup>-\<^sup>5\<^sup>3\<close> and \<open>1 + 2\<^sup>-\<^sup>5\<^sup>3\<close>.\<close>

lemma fl_step:
  assumes X: "0 < X" and l: "0 < l" and lo: "l * X \<le> y" and hi: "y \<le> h * X"
  shows "(l * (1 - 1 / 2 ^ 53)) * X \<le> fl y" and "fl y \<le> (h * (1 + 1 / 2 ^ 53)) * X"
proof -
  define u :: rat where "u = 1 / 2 ^ 53"
  have u: "0 \<le> 1 - u" "0 \<le> 1 + u" by (simp_all add: u_def)
  have lX: "0 < l * X" by (rule mult_pos_pos[OF l X])
  then have y: "0 < y" using lo by (rule less_le_trans)
  have "y / 2 ^ 53 = y * u" by (simp only: u_def times_divide_eq_right mult_1_right)
  with fl_error[OF y] have "\<bar>fl y - y\<bar> \<le> y * u" by (simp only:)
  then have e: "y - y * u \<le> fl y" "fl y \<le> y + y * u" by linarith+
  have "(l * (1 - u)) * X = (l * X) * (1 - u)" by (simp only: mult_ac)
  also have "\<dots> \<le> y * (1 - u)" using lo u(1) by (rule mult_right_mono)
  also have "\<dots> = y - y * u" by (simp only: right_diff_distrib mult_1_right)
  finally have 1: "(l * (1 - u)) * X \<le> fl y" using e(1) by (rule order_trans)
  have "fl y \<le> y + y * u" by (rule e(2))
  also have "\<dots> = y * (1 + u)" by (simp only: distrib_left mult_1_right)
  also have "\<dots> \<le> (h * X) * (1 + u)" using hi u(2) by (rule mult_right_mono)
  also have "\<dots> = (h * (1 + u)) * X" by (simp only: mult_ac)
  finally have 2: "fl y \<le> (h * (1 + u)) * X" .
  from 1 show "(l * (1 - 1 / 2 ^ 53)) * X \<le> fl y" by (simp only: u_def)
  from 2 show "fl y \<le> (h * (1 + 1 / 2 ^ 53)) * X" by (simp only: u_def)
qed

text \<open>
  The product \<open>file_size_mb / 10 * 60\<close> as Python computes it, against its exact value
  \<open>q\<close>: three roundings.
\<close>

lemma product_error:
  assumes "0 < k"
  defines "q \<equiv> of_nat k / (1024 * 1024) / 10 * 60"
  defines "p \<equiv> fl (fl (fl (of_nat k / (1024 * 1024)) / 10) * 60)"
  shows "q - q / 2 ^ 51 \<le> p" and "p \<le> q + q / 2 ^ 51"
proof -
  define x0 :: rat where "x0 = of_nat k / (1024 * 1024)"
  have x0: "0 < x0" using assms(1) by (simp add: x0_def)
  define u :: rat where "u = 1 / 2 ^ 53"
  have u: "0 < 1 - u" by (simp add: u_def)
  note s = fl_step[of x0 1 x0 1, OF x0, folded u_def, simplified]
  have x1: "0 < x0 / 10" using x0 by simp
  have l1: "(0::rat) < 1 - u" by (rule u)
  have s_lo: "(1 - u) * (x0 / 10) \<le> fl x0 / 10" using s(1) by (simp add: algebra_simps)
  have s_hi: "fl x0 / 10 \<le> (1 + u) * (x0 / 10)" using s(2) by (simp add: algebra_simps)
  note a = fl_step[OF x1 l1 s_lo s_hi, folded u_def]
  have x2: "0 < x0 / 10 * 60" using x0 by simp
  have l2: "(0::rat) < (1 - u) * (1 - u)" using u by simp
  have a_lo: "((1 - u) * (1 - u)) * (x0 / 10 * 60) \<le> fl (fl x0 / 10) * 60"
    using a(1) by (simp add: algebra_simps)
  have a_hi: "fl (fl x0 / 10) * 60 \<le> ((1 + u) * (1 + u)) * (x0 / 10 * 60)"
    using a(2) by (simp add: algebra_simps)
  note b = fl_step[OF x2 l2 a_lo a_hi, folded u_def]
  have c1: "1 - 1 / 2 ^ 51 \<le> (1 - u) * (1 - u) * (1 - u)" by (simp add: u_def)
  have c2: "(1 + u) * (1 + u) * (1 + u) \<le> 1 + 1 / 2 ^ 51" by (simp add: u_def)
  have qx: "q = x0 / 10 * 60" by (simp add: q_def x0_def)
  have px: "p = fl (fl (fl x0 / 10) * 60)" by (simp add: p_def x0_def)
  have qp: "0 \<le> q" using x2 by (simp add: qx)
  have "q - q / 2 ^ 51 = (1 - 1 / 2 ^ 51) * q" by (simp add: algebra_simps)
  also have "\<dots> \<le> ((1 - u) * (1 - u) * (1 - u)) * q" using c1 qp by (rule mult_right_mono)
  also have "\<dots> \<le> p" using b(1) by (simp add: qx px)
  finally show "q - q / 2 ^ 51 \<le> p" .
  have "p \<le> ((1 + u) * (1 + u) * (1 + u)) * q" using b(2) by (simp add: qx px)
  also have "\<dots> \<le> (1 + 1 / 2 ^ 51) * q" using c2 qp by (rule mult_right_mono)
  also have "\<dots> = q + q / 2 ^ 51" by (simp add: algebra_simps)
  finally show "p \<le> q + q / 2 ^ 51" .
qed

lemma fl_0: "fl 0 = 0"
  by (simp add: fl_def)

lemma trunc_0: "trunc 0 = 0"
  by (simp add: trunc_def)

lemma request_timeout_bounds:
  assumes "st_size < 2 ^ 63"
  shows "request_timeout st_size
           = max 120 (\<lfloor>fl (fl (fl (of_nat st_size / (1024 * 1024)) / 10) * 60)\<rfloor> + 60)"
    and "spec_timeout st_size - 33 / 32 < of_int (request_timeout st_size)"
    and "of_int (request_timeout st_size) \<le> spec_timeout st_size + 1 / 32"
proof -
  define q :: rat where "q = of_nat st_size / (1024 * 1024) / 10 * 60"
  define p where "p = fl (fl (fl (of_nat st_size / (1024 * 1024)) / 10) * 60)"
  have T: "request_timeout st_size = max 120 (trunc p + 60)"
    by (simp add: request_timeout_def Let_def p_def)
  have S: "spec_timeout st_size = max 120 (q + 60)"
    by (simp add: spec_timeout_def q_def)
  have q0: "0 \<le> q" by (simp add: q_def)
  have "(of_nat st_size :: rat) < of_nat (2 ^ 63)" using assms by (simp only: of_nat_less_iff)
  then have k: "(of_nat st_size :: rat) < 2 ^ 63" by simp
  have "q = of_nat st_size * (3 / 524288)" by (simp add: q_def)
  also have "\<dots> < 2 ^ 63 * (3 / 524288)" using k by (intro mult_strict_right_mono) simp_all
  finally have qb: "q < 2 ^ 63 * (3 / 524288)" .
  have "q / 2 ^ 51 < 2 ^ 63 * (3 / 524288) / 2 ^ 51" using qb by (intro divide_strict_right_mono) simp_all
  also have "\<dots> \<le> (1 / 32 :: rat)" by simp
  finally have small: "q / 2 ^ 51 < 1 / 32" .
  have "q / 2 ^ 51 \<le> q" using q0 by (simp add: field_simps)
  have pq: "q - q / 2 ^ 51 \<le> p \<and> p \<le> q + q / 2 ^ 51"
  proof (cases "st_size = 0")
    case True
    then show ?thesis by (simp add: p_def q_def fl_0)
  next
    case False
    then have "0 < st_size" by simp
    from product_error[OF this] show ?thesis by (simp only: p_def q_def)
  qed
  have p0: "0 \<le> p"
  proof -
    have "0 \<le> q - q / 2 ^ 51" using \<open>q / 2 ^ 51 \<le> q\<close> by simp
    with pq show ?thesis by linarith
  qed
  then have tr: "trunc p = \<lfloor>p\<rfloor>" by (simp add: trunc_def)
  show "request_timeout st_size
           = max 120 (\<lfloor>fl (fl (fl (of_nat st_size / (1024 * 1024)) / 10) * 60)\<rfloor> + 60)"
    using T tr by (simp only: p_def)
  have f1: "of_int \<lfloor>p\<rfloor> \<le> p" and f2: "p < of_int \<lfloor>p\<rfloor> + 1" by linarith+
  have Tr: "(of_int (request_timeout st_size) :: rat) = max 120 (of_int \<lfloor>p\<rfloor> + 60)"
    by (simp add: T tr)
  define d where "d = q / 2 ^ 51"
  have dd: "d < 1 / 32" "q - d \<le> p" "p \<le> q + d" using small pq by (simp_all only: d_def)
  show "spec_timeout st_size - 33 / 32 < of_int (request_timeout st_size)"
    unfolding Tr S using f2 dd by (simp add: max_def; linarith)
  show "of_int (request_timeout st_size) \<le> spec_timeout st_size + 1 / 32"
    unfolding Tr S using f1 dd by (simp add: max_def; linarith)
qed

lemma spec_timeout_values:
  "spec_timeout 10747904 = 243 / 2" "spec_timeout 42991616 = 306"
  "spec_timeout 104857600 = 660" "spec_timeout 1048576 = 120"
  by (simp_all add: spec_timeout_def)

text \<open>
  C3, as stated, fails: the code truncates the product to a whole number before it adds
  the margin. A file of 10.25 MB gets 121 seconds where the formula gives 121.5, and a
  file of 41 MB gets 305 seconds where the formula gives 306, the double nearest to 4.1
  being below 4.1.
\<close>

theorem request_timeout_counterexample:
  "of_int (request_timeout 10747904) \<noteq> spec_timeout 10747904
   \<and> request_timeout 10747904 = 121 \<and> spec_timeout 10747904 = 243 / 2
   \<and> request_timeout 42991616 = 305 \<and> spec_timeout 42991616 = 306"
  by (simp add: request_timeout_10_25MB request_timeout_41MB spec_timeout_values)

text \<open>
  C3, amended. For a file of less than \<open>2\<^sup>6\<^sup>3\<close> bytes the timeout is
  \<open>max(120, int(file_size_mb / 10 * 60) + 60)\<close>, the quotients and the product rounded
  as doubles and the product truncated: a whole number of seconds, at least 120, above
  the value of the formula of the specification less \<open>33/32\<close> and at most that value
  plus \<open>1/32\<close>. A file of 100 MB gets 660 seconds and a file of 1 MB gets 120.
\<close>

theorem request_timeout_truncated:
  assumes "st_size < 2 ^ 63"
  shows "request_timeout st_size
           = max 120 (\<lfloor>fl (fl (fl (of_nat st_size / (1024 * 1024)) / 10) * 60)\<rfloor> + 60)
       \<and> 120 \<le> request_timeout st_size
       \<and> spec_timeout st_size - 33 / 32 < of_int (request_timeout st_size)
       \<and> of_int (request_timeout st_size) \<le> spec_timeout st_size + 1 / 32
       \<and> request_timeout 104857600 = 660
       \<and> request_timeout 1048576 = 120"
proof -
  have "120 \<le> request_timeout st_size" by (simp add: request_timeout_def Let_def)
  with request_timeout_bounds[OF assms] request_timeout_100MB request_timeout_1MB
  show ?thesis by blast
qed

theorem request_timeout_truncated_witness:
  "(42991616::nat) < 2 ^ 63
   \<and> 305 \<le> request_timeout 42991616 \<and> request_timeout 42991616 \<le> 306"
proof -
  have a: "(42991616::nat) < 2 ^ 63" by simp
  from request_timeout_truncated[OF a]
  have "spec_timeout 42991616 - 33 / 32 < of_int (request_timeout 42991616)"
    and "of_int (request_timeout 42991616) \<le> spec_timeout 42991616 + 1 / 32"
    by blast+
  then have "(306::rat) - 33 / 32 < of_int (request_timeout 42991616)"
    and "of_int (request_timeout 42991616) \<le> (306::rat) + 1 / 32"
    by (simp_all only: spec_timeout_values)
  then have "(304::rat) < of_int (request_timeout 42991616)"
    and "of_int (request_timeout 42991616) < (307::rat)"
    by linarith+
  then have "304 < request_timeout 42991616" "request_timeout 42991616 < 307"
    by (simp_all only: of_int_less_iff[symmetric, where 'a = rat] of_int_numeral)
  with a show ?thesis by simp
qed

end
